theory Spec2Isabelle
  imports Complex_Main
begin

section \<open>Parsed JSON values and Python exceptions\<close>

text \<open>
  The poll response handled by \<^verbatim>\<open>Rse.MonitorForHeartBeat\<close> is whatever
  \<^verbatim>\<open>res.json()\<close> produced: an arbitrary parsed JSON value. Objects are Python
  dicts (kept here as association lists in insertion order, looked up with
  \<open>map_of\<close>), arrays are lists, numbers are kept as exact rationals (every finite
  int or float is one), and \<^verbatim>\<open>True\<close>/\<^verbatim>\<open>False\<close> behave as the numbers 1 and 0
  in comparisons, as Python's \<^verbatim>\<open>bool\<close> does.
\<close>

datatype json =
    JNull
  | JBool bool
  | JNum rat
  | JStr string
  | JArr "json list"
  | JObj "(string \<times> json) list"

text \<open>
  The exceptions that the modelled code can raise. \<^verbatim>\<open>KeyError\<close> is the only
  subclass of \<^verbatim>\<open>LookupError\<close> among them.
\<close>

datatype py_error = KeyError | TypeError | ValueError

text \<open>A machine agent id is supplied by the caller as an integer or a string.\<close>

datatype agent_id = IdInt int | IdStr string

text \<open>
  Calls of \<^verbatim>\<open>self.log.debug/info/error\<close>: the level, the message text with the
  formatted values left out, and the values that were formatted into it.
\<close>

datatype log_level = DEBUG | INFO | ERROR

datatype log_arg = ArgId agent_id | ArgStr string | ArgInt int | ArgJson json

type_synonym log_rec = "log_level \<times> string \<times> log_arg list"

section \<open>rse.py: Rse.MonitorForHeartBeat\<close>

text \<open>\<^verbatim>\<open>x[k]\<close> for a string key \<open>k\<close>: only a dict can be subscripted by a string.\<close>

fun subscript :: "json \<Rightarrow> string \<Rightarrow> py_error + json" where
  "subscript (JObj kvs) k = (case map_of kvs k of None \<Rightarrow> Inl KeyError | Some v \<Rightarrow> Inr v)"
| "subscript JNull k = Inl TypeError"
| "subscript (JBool b) k = Inl TypeError"
| "subscript (JNum r) k = Inl TypeError"
| "subscript (JStr s) k = Inl TypeError"
| "subscript (JArr xs) k = Inl TypeError"

fun starts_with :: "string \<Rightarrow> string \<Rightarrow> bool" where
  "starts_with s [] = True"
| "starts_with [] (p # ps) = False"
| "starts_with (c # cs) (p # ps) = (c = p \<and> starts_with cs ps)"

fun is_substring :: "string \<Rightarrow> string \<Rightarrow> bool" where
  "is_substring p [] = (p = [])"
| "is_substring p (c # cs) = (starts_with (c # cs) p \<or> is_substring p cs)"

text \<open>
  \<^verbatim>\<open>k in x\<close> for a string \<open>k\<close>: key membership for a dict, element
  membership for a list, substring test for a string, \<^verbatim>\<open>TypeError\<close> otherwise.
\<close>

fun py_in :: "string \<Rightarrow> json \<Rightarrow> py_error + bool" where
  "py_in k (JObj kvs) = Inr (k \<in> set (map fst kvs))"
| "py_in k (JArr xs) = Inr (JStr k \<in> set xs)"
| "py_in k (JStr s) = Inr (is_substring k s)"
| "py_in k JNull = Inl TypeError"
| "py_in k (JBool b) = Inl TypeError"
| "py_in k (JNum r) = Inl TypeError"

text \<open>
  \<^verbatim>\<open>for event in x\<close>: the elements of a list, the keys of a dict, the characters
  of a string; anything else is not iterable.
\<close>

fun py_iter :: "json \<Rightarrow> py_error + json list" where
  "py_iter (JArr xs) = Inr xs"
| "py_iter (JObj kvs) = Inr (map (\<lambda>kv. JStr (fst kv)) kvs)"
| "py_iter (JStr s) = Inr (map (\<lambda>c. JStr [c]) s)"
| "py_iter JNull = Inl TypeError"
| "py_iter (JBool b) = Inl TypeError"
| "py_iter (JNum r) = Inl TypeError"

text \<open>\<^verbatim>\<open>x == machine_agent_id\<close>, by value.\<close>

fun py_eq_id :: "json \<Rightarrow> agent_id \<Rightarrow> bool" where
  "py_eq_id (JNum r) (IdInt n) = (r = of_int n)"
| "py_eq_id (JBool b) (IdInt n) = (n = (if b then 1 else 0))"
| "py_eq_id (JStr s) (IdStr t) = (s = t)"
| "py_eq_id x i = False"

text \<open>
  \<^verbatim>\<open>x < bound\<close> for a numeric bound: defined on numbers (and booleans), a
  \<^verbatim>\<open>TypeError\<close> on every other value (Python 3 ordering).
\<close>

fun py_lt :: "json \<Rightarrow> rat \<Rightarrow> py_error + bool" where
  "py_lt (JNum r) bound = Inr (r < bound)"
| "py_lt (JBool b) bound = Inr ((if b then 1 else 0) < bound)"
| "py_lt JNull bound = Inl TypeError"
| "py_lt (JStr s) bound = Inl TypeError"
| "py_lt (JArr xs) bound = Inl TypeError"
| "py_lt (JObj kvs) bound = Inl TypeError"

text \<open>
  One iteration of the loop body (the same in both branches):
  \<^verbatim>\<open>
  if event['data']['Event'] == 'Heartbeat':
      if event['data']['MachineAgentId'] == machine_agent_id and event['age'] < 26:
          return True
  \<close>
  \<open>Inr True\<close> is the \<^verbatim>\<open>return True\<close>, \<open>Inr False\<close> falls through to the next
  event, \<open>Inl\<close> is an exception raised by a subscript or by the comparison. The
  \<^verbatim>\<open>and\<close> short-circuits, so \<^verbatim>\<open>event['age']\<close> is read only for a heartbeat of
  the requested agent.
\<close>

definition heartbeat_check :: "agent_id \<Rightarrow> json \<Rightarrow> py_error + bool" where
  "heartbeat_check machine_agent_id event =
     (case subscript event ''data'' of
        Inl e \<Rightarrow> Inl e
      | Inr d \<Rightarrow>
          (case subscript d ''Event'' of
             Inl e \<Rightarrow> Inl e
           | Inr ty \<Rightarrow>
               if ty = JStr ''Heartbeat'' then
                 (case subscript d ''MachineAgentId'' of
                    Inl e \<Rightarrow> Inl e
                  | Inr a \<Rightarrow>
                      if py_eq_id a machine_agent_id then
                        (case subscript event ''age'' of
                           Inl e \<Rightarrow> Inl e
                         | Inr age \<Rightarrow> py_lt age 26)
                      else Inr False)
               else Inr False))"

text \<open>The \<^verbatim>\<open>for\<close> loop: stop at the first match or at the first exception.\<close>

fun scan_events :: "agent_id \<Rightarrow> json list \<Rightarrow> py_error + bool" where
  "scan_events machine_agent_id [] = Inr False"
| "scan_events machine_agent_id (event # rest) =
     (case heartbeat_check machine_agent_id event of
        Inl e \<Rightarrow> Inl e
      | Inr found \<Rightarrow> if found then Inr True else scan_events machine_agent_id rest)"

text \<open>
  The body of the \<^verbatim>\<open>try\<close> block, as a function of the value \<^verbatim>\<open>rsemsg\<close> that
  \<^verbatim>\<open>self.Query()\<close> returned. The result carries the returned boolean and the
  \<^verbatim>\<open>self.log.error\<close> calls made. The bare-sequence branch logs
  \<^verbatim>\<open>'invalid RSE message received'\<close> whenever it finds no match. (The optional
  audit trail written to \<^verbatim>\<open>rselogfile\<close> does not influence the result and is left
  out.)
\<close>

definition monitor_try :: "agent_id \<Rightarrow> json \<Rightarrow> py_error + (bool \<times> log_rec list)" where
  "monitor_try machine_agent_id rsemsg =
     (case py_in ''events'' rsemsg of
        Inl e \<Rightarrow> Inl e
      | Inr has_events \<Rightarrow>
          if has_events then
            (case subscript rsemsg ''events'' of
               Inl e \<Rightarrow> Inl e
             | Inr evs \<Rightarrow>
                 (case py_iter evs of
                    Inl e \<Rightarrow> Inl e
                  | Inr events \<Rightarrow>
                      (case scan_events machine_agent_id events of
                         Inl e \<Rightarrow> Inl e
                       | Inr found \<Rightarrow> Inr (found, []))))
          else
            (case py_iter rsemsg of
               Inl e \<Rightarrow> Inl e
             | Inr events \<Rightarrow>
                 (case scan_events machine_agent_id events of
                    Inl e \<Rightarrow> Inl e
                  | Inr found \<Rightarrow>
                      if found then Inr (True, [])
                      else Inr (False, [(ERROR, ''invalid RSE message received'', [])]))))"

text \<open>
  \<^verbatim>\<open>except LookupError\<close>: a \<^verbatim>\<open>KeyError\<close> is logged and turned into
  \<^verbatim>\<open>False\<close>; any other exception leaves the method.
\<close>

definition MonitorForHeartBeat :: "agent_id \<Rightarrow> json \<Rightarrow> py_error + (bool \<times> log_rec list)" where
  "MonitorForHeartBeat machine_agent_id rsemsg =
     (case monitor_try machine_agent_id rsemsg of
        Inl KeyError \<Rightarrow> Inr (False, [(ERROR, ''error while parsing RSE data'', [])])
      | Inl TypeError \<Rightarrow> Inl TypeError
      | Inl ValueError \<Rightarrow> Inl ValueError
      | Inr r \<Rightarrow> Inr r)"

text \<open>The value returned to the caller, without the log.\<close>

definition returned :: "py_error + (bool \<times> log_rec list) \<Rightarrow> py_error + bool" where
  "returned r = (case r of Inl e \<Rightarrow> Inl e | Inr p \<Rightarrow> Inr (fst p))"

subsection \<open>The fields of an event, for stating properties\<close>






section \<open>agents.py: AgentLogLevel\<close>

text \<open>
  \<^verbatim>\<open>self.loglevel\<close> maps a machine agent id to the stack of saved levels (the
  strings that \<^verbatim>\<open>GetLogLevel\<close> returned, newest last).
\<close>

record log_levels =
  loglevel :: "agent_id \<rightharpoonup> string list"
  level_log :: "log_rec list"

datatype level = LevelName string | LevelNum int

text \<open>
  \<^verbatim>\<open>SetLogLevel\<close>: a level outside the accepted names and numbers raises
  \<^verbatim>\<open>ValueError\<close> before any request is made; otherwise the outcome is decided
  by the status code \<open>status\<close> with which the server answers the PUT (204 is
  success, anything else is logged and gives \<^verbatim>\<open>False\<close>). The machine agent
  id only goes into the body of the request.
\<close>

definition SetLogLevel :: "level \<Rightarrow> int \<Rightarrow> py_error + (bool \<times> log_rec list)" where
  "SetLogLevel lvl status =
     (if lvl \<notin> set [LevelName ''Fatal'', LevelName ''Error'', LevelName ''Warn'',
                     LevelName ''Info'', LevelName ''Debug'', LevelName ''Trace'',
                     LevelName ''All'', LevelNum 1, LevelNum 2, LevelNum 3, LevelNum 4,
                     LevelNum 5, LevelNum 6, LevelNum 7]
      then Inl ValueError
      else if status = 204 then Inr (True, [])
      else Inr (False, [(ERROR, ''Unable to set the log level. Server returned '', [ArgInt status])]))"

text \<open>
  \<^verbatim>\<open>PopLogLevel\<close>. The first component of the result is the exception that left
  the method, if any. \<^verbatim>\<open>stack.pop(index)\<close> removes the element at \<open>index\<close>.
\<close>

definition PopLogLevel :: "agent_id \<Rightarrow> int \<Rightarrow> log_levels \<Rightarrow> py_error option \<times> log_levels" where
  "PopLogLevel machine_agent_id status s =
     (case loglevel s machine_agent_id of
        None \<Rightarrow>
          (None, s\<lparr>level_log := level_log s @
             [(ERROR, ''Machine Agent Id ({}) does not have any stacked log levels'',
               [ArgId machine_agent_id])]\<rparr>)
      | Some stack \<Rightarrow>
          if length stack \<noteq> 0 then
            (let index = length stack - 1;
                 lvl = stack ! index
             in case SetLogLevel (LevelName lvl) status of
                  Inl e \<Rightarrow> (Some e, s)
                | Inr (ok, lg) \<Rightarrow>
                    if ok then
                      (None, s\<lparr>loglevel := (loglevel s)(machine_agent_id \<mapsto>
                                   take index stack @ drop (index + 1) stack),
                                level_log := level_log s @ lg @
                                   [(INFO, ''Restored Machine Agent Id ({}) Log Level to {}'',
                                     [ArgId machine_agent_id, ArgStr lvl])]\<rparr>)
                    else
                      (None, s\<lparr>level_log := level_log s @ lg @
                                   [(ERROR, ''Error while resetting the log level for Machine Agent Id ({}) to {}'',
                                     [ArgId machine_agent_id, ArgStr lvl])]\<rparr>))
          else
            (None, s\<lparr>level_log := level_log s @
               [(ERROR, ''Machine Agent Id ({}) is already at the root log level. Nothing left to pop.'',
                 [ArgId machine_agent_id])]\<rparr>))"

section \<open>agents.py: the registry of keep-awake threads\<close>

text \<open>
  An element of \<^verbatim>\<open>self.wake_agent_threads\<close> is a dict with the key \<^verbatim>\<open>'id'\<close>
  and, once set, the keys \<^verbatim>\<open>'terminator'\<close> (a \<^verbatim>\<open>threading.Event\<close>) and
  \<^verbatim>\<open>'thread'\<close> (a \<^verbatim>\<open>threading.Thread\<close>). Events and threads are objects
  compared by identity: they live in two heaps and are referred to by their address
  (the position at which they were allocated).
\<close>

record wake_entry =
  entry_id :: agent_id
  terminator :: "nat option"
  thread :: "nat option"

text \<open>
  A thread object: the keyword arguments that matter here (the event it was given as
  \<^verbatim>\<open>my_notifier\<close>, the agent id, the period) and whether it has been started and
  has not yet returned.
\<close>

record thread_obj =
  my_notifier :: nat
  thread_agent_id :: agent_id
  thread_period :: rat
  running :: bool

datatype sync_call = EventSet nat | ThreadJoin nat

text \<open>
  The \<^verbatim>\<open>Agents\<close> instance together with the objects it refers to: the registry, the
  heap of events (their internal flag), the heap of threads, the log, and the
  sequence of \<^verbatim>\<open>set()\<close> and \<^verbatim>\<open>join()\<close> calls made so far.
\<close>

record agents =
  wake_agent_threads :: "wake_entry list"
  events :: "bool list"
  threads :: "thread_obj list"
  logged :: "log_rec list"
  calls :: "sync_call list"

definition new_agents :: agents where
  "new_agents = \<lparr>wake_agent_threads = [], events = [], threads = [], logged = [], calls = []\<rparr>"

text \<open>
  \<^verbatim>\<open>for a_thread in self.wake_agent_threads: if a_thread['id'] == machine_agent_id: ... break\<close>:
  the position of the first entry with that id.
\<close>

fun find_thread :: "agent_id \<Rightarrow> wake_entry list \<Rightarrow> nat option" where
  "find_thread machine_agent_id [] = None"
| "find_thread machine_agent_id (a # rest) =
     (if entry_id a = machine_agent_id then Some 0
      else map_option Suc (find_thread machine_agent_id rest))"

text \<open>
  \<^verbatim>\<open>KeepAgentAwake\<close>. The new dict \<^verbatim>\<open>wake_agent_thread\<close> is appended, then the
  \<^emph>\<open>first\<close> entry with the id receives a fresh event under \<^verbatim>\<open>'terminator'\<close>;
  the thread's \<^verbatim>\<open>my_notifier\<close> argument is read from
  \<^verbatim>\<open>wake_agent_thread['terminator']\<close>, that is from the appended dict, which
  has that key only when it is itself the first entry with the id. Otherwise the
  read raises \<^verbatim>\<open>KeyError\<close> while the keyword arguments are built, before any thread
  object exists.
\<close>

definition KeepAgentAwake :: "agent_id \<Rightarrow> rat \<Rightarrow> agents \<Rightarrow> py_error option \<times> agents" where
  "KeepAgentAwake machine_agent_id period s =
     (let reg = wake_agent_threads s @
                  [\<lparr>entry_id = machine_agent_id, terminator = None, thread = None\<rparr>];
          new = length reg - 1
      in case find_thread machine_agent_id reg of
           None \<Rightarrow> (None, s\<lparr>wake_agent_threads := reg\<rparr>)
         | Some i \<Rightarrow>
             (let ev = length (events s);
                  reg1 = reg[i := (reg ! i)\<lparr>terminator := Some ev\<rparr>];
                  s1 = s\<lparr>wake_agent_threads := reg1,
                         events := events s @ [False],
                         logged := logged s @
                           [(DEBUG, ''Starting RSE Wakeup Thread for agent: {0:}'',
                             [ArgId machine_agent_id])]\<rparr>
              in case terminator (reg1 ! new) of
                   None \<Rightarrow> (Some KeyError, s1)
                 | Some n \<Rightarrow>
                     (let t = length (threads s);
                          th = \<lparr>my_notifier = n, thread_agent_id = machine_agent_id,
                                thread_period = period, running = True\<rparr>
                      in (None, s1\<lparr>wake_agent_threads := reg1[i := (reg1 ! i)\<lparr>thread := Some t\<rparr>],
                                   threads := threads s @ [th]\<rparr>))))"

text \<open>
  \<^verbatim>\<open>thread.join()\<close>, seen from the caller. The thread function leaves its loop
  only at a checkpoint that finds its own event set, and it clears the event there
  (see \<open>check_notifier\<close> below); so joining a running thread returns, with the event
  cleared, when the thread's event is set, and never returns otherwise (\<open>None\<close>).
  Joining a thread that has already returned comes back at once.
  Addresses are those handed out by the allocations in \<open>KeepAgentAwake\<close>, so
  \<open>threads s ! t\<close> is always within range.
\<close>

definition join :: "nat \<Rightarrow> agents \<Rightarrow> agents option" where
  "join t s =
     (let th = threads s ! t;
          s1 = s\<lparr>calls := calls s @ [ThreadJoin t]\<rparr>
      in if \<not> running th then Some s1
         else if events s ! my_notifier th then
           Some (s1\<lparr>events := (events s)[my_notifier th := False],
                    threads := (threads s)[t := th\<lparr>running := False\<rparr>]\<rparr>)
         else None)"

text \<open>\<^verbatim>\<open>event.set()\<close> on the event at address \<open>ev\<close>.\<close>

definition set_event :: "nat \<Rightarrow> agents \<Rightarrow> agents" where
  "set_event ev s = s\<lparr>events := (events s)[ev := True], calls := calls s @ [EventSet ev]\<rparr>"

text \<open>
  \<^verbatim>\<open>StopKeepAgentWake\<close>. When no entry has the id the loop body never runs: the
  method returns without logging anything. The outer \<open>None\<close> means that the call
  never returns.
\<close>

definition StopKeepAgentWake :: "agent_id \<Rightarrow> agents \<Rightarrow> (py_error option \<times> agents) option" where
  "StopKeepAgentWake machine_agent_id s =
     (case find_thread machine_agent_id (wake_agent_threads s) of
        None \<Rightarrow> Some (None, s)
      | Some i \<Rightarrow>
          (let a_thread = wake_agent_threads s ! i;
               s1 = s\<lparr>logged := logged s @
                      [(DEBUG, ''Telling for RSE Wakeup Thread {0:} for agent {1:} to terminate'',
                        [ArgId (entry_id a_thread), ArgId machine_agent_id])]\<rparr>
           in case terminator a_thread of
                None \<Rightarrow> Some (Some KeyError, s1)
              | Some ev \<Rightarrow>
                  (let s2 = set_event ev s1;
                       s3 = s2\<lparr>logged := logged s2 @
                              [(DEBUG, ''Waiting for RSE Wakeup Thread {0:} to rejoin'',
                                [ArgId (entry_id a_thread)])]\<rparr>
                   in case thread a_thread of
                        None \<Rightarrow> Some (Some KeyError, s3)
                      | Some t \<Rightarrow>
                          (case join t s3 of
                             None \<Rightarrow> None
                           | Some s4 \<Rightarrow>
                               Some (None, s4\<lparr>wake_agent_threads :=
                                              remove1 a_thread (wake_agent_threads s4)\<rparr>)))))"




section \<open>agents.py: Agents.WakeSpecificAgent\<close>

text \<open>
  What the method sees of the outside: the successive values of
  \<^verbatim>\<open>int(round(time.time() * 1000))\<close>, the status codes with which the server
  answers the successive \<^verbatim>\<open>WakeAgents\<close> requests, and the responses that
  \<^verbatim>\<open>rse.Query()\<close> hands to the successive \<^verbatim>\<open>rse.MonitorForHeartBeat\<close> calls.
  Three counters say how many of each have been consumed.
\<close>

record world =
  clock :: "nat \<Rightarrow> int"
  ticks :: nat
  wake_status :: "nat \<Rightarrow> int"
  wakes :: nat
  polls :: "nat \<Rightarrow> json"
  monitors :: nat

definition now :: "world \<Rightarrow> int" where
  "now w = clock w (ticks w)"

definition tick :: "world \<Rightarrow> world" where
  "tick w = w\<lparr>ticks := ticks w + 1\<rparr>"

text \<open>
  \<^verbatim>\<open>WakeAgents\<close> returns the status code of its POST (its two debug messages are
  left out).
\<close>

definition WakeAgents :: "world \<Rightarrow> int \<times> world" where
  "WakeAgents w = (wake_status w (wakes w), w\<lparr>wakes := wakes w + 1\<rparr>)"

text \<open>
  Phase 1:
  \<^verbatim>\<open>
  while ((int(round(time.time() * 1000))) < finish_time):
      wakeup_status_code = self.WakeAgents()
      if wakeup_status_code == 200:
          wokeall = True
          break
  \<close>
  The result is \<^verbatim>\<open>wokeall\<close>, the last status code, and the world afterwards;
  \<open>None\<close> is a loop that never ends.
\<close>

partial_function (option) wake_all_loop :: "int \<Rightarrow> int \<Rightarrow> world \<Rightarrow> (bool \<times> int \<times> world) option" where
  "wake_all_loop finish_time wakeup_status_code w =
     (if now w < finish_time then
        (case WakeAgents (tick w) of
           (code, w1) \<Rightarrow>
             if code = 200 then Some (True, code, w1)
             else wake_all_loop finish_time code w1)
      else Some (False, wakeup_status_code, tick w))"

text \<open>
  Phase 2:
  \<^verbatim>\<open>
  while ((int(round(time.time() * 1000))) < finish_time):
      if rse.MonitorForHeartBeat(machine_agent_id):
          woke_agent = True
          break
  \<close>
  An exception that leaves \<^verbatim>\<open>MonitorForHeartBeat\<close> leaves the loop as well.
\<close>

definition monitor_call :: "agent_id \<Rightarrow> world \<Rightarrow> (py_error + bool) \<times> world" where
  "monitor_call machine_agent_id w =
     (returned (MonitorForHeartBeat machine_agent_id (polls w (monitors w))),
      w\<lparr>monitors := monitors w + 1\<rparr>)"

partial_function (option) heartbeat_loop :: "agent_id \<Rightarrow> int \<Rightarrow> world \<Rightarrow> ((py_error + bool) \<times> world) option" where
  "heartbeat_loop machine_agent_id finish_time w =
     (if now w < finish_time then
        (case monitor_call machine_agent_id (tick w) of
           (Inl e, w1) \<Rightarrow> Some (Inl e, w1)
         | (Inr found, w1) \<Rightarrow>
             if found then Some (Inr True, w1)
             else heartbeat_loop machine_agent_id finish_time w1)
      else Some (Inr False, tick w))"

text \<open>\<^verbatim>\<open>x / 1000\<close> (true division) for a parsed JSON value \<open>x\<close>.\<close>

fun py_div_1000 :: "json \<Rightarrow> py_error + rat" where
  "py_div_1000 (JNum r) = Inr (r / 1000)"
| "py_div_1000 (JBool b) = Inr ((if b then 1 else 0) / 1000)"
| "py_div_1000 JNull = Inl TypeError"
| "py_div_1000 (JStr s) = Inl TypeError"
| "py_div_1000 (JArr xs) = Inl TypeError"
| "py_div_1000 (JObj kvs) = Inl TypeError"

text \<open>
  The default period, computed from the value \<^verbatim>\<open>rse_heartbeat_config\<close> that
  \<^verbatim>\<open>self.GetRseHeartbeatConfig(machine_agent_id)\<close> returned (that accessor is not
  part of the sources at hand; its result is a parameter):
  \<^verbatim>\<open>
  wake_period = rse_heartbeat_config['Timeout']['RealTime'] / 1000
  if wake_period > 6:
      wake_period = wake_period - 5
  elif wake_period > 2:
      wake_period = wake_period - 1
  else:
      wake_period = 70
  \<close>
\<close>

definition default_wake_period :: "json \<Rightarrow> py_error + rat" where
  "default_wake_period rse_heartbeat_config =
     (case subscript rse_heartbeat_config ''Timeout'' of
        Inl e \<Rightarrow> Inl e
      | Inr tmo \<Rightarrow>
          (case subscript tmo ''RealTime'' of
             Inl e \<Rightarrow> Inl e
           | Inr rt \<Rightarrow>
               (case py_div_1000 rt of
                  Inl e \<Rightarrow> Inl e
                | Inr wake_period \<Rightarrow>
                    if wake_period > 6 then Inr (wake_period - 5)
                    else if wake_period > 2 then Inr (wake_period - 1)
                    else Inr 70)))"

text \<open>
  \<^verbatim>\<open>WakeSpecificAgent\<close>. \<open>wake_period = None\<close> is the argument left at its default
  \<^verbatim>\<open>None\<close>. The result is the returned boolean (or the exception that left the
  method), the world and the \<^verbatim>\<open>Agents\<close> instance afterwards.
\<close>

definition WakeSpecificAgent ::
  "agent_id \<Rightarrow> int \<Rightarrow> bool \<Rightarrow> rat option \<Rightarrow> json \<Rightarrow> world \<Rightarrow> agents
     \<Rightarrow> ((py_error + bool) \<times> world \<times> agents) option" where
  "WakeSpecificAgent machine_agent_id timeoutMilliseconds keep_agent_awake wake_period
       rse_heartbeat_config w s =
     (let start_time = now w;
          finish_time = start_time + timeoutMilliseconds
      in case wake_all_loop finish_time 0 (tick w) of
           None \<Rightarrow> None
         | Some (wokeall, wakeup_status_code, w1) \<Rightarrow>
             if wokeall then
               (let start_time2 = now w1;
                    finish_time2 = start_time2 + timeoutMilliseconds
                in case heartbeat_loop machine_agent_id finish_time2 (tick w1) of
                     None \<Rightarrow> None
                   | Some (Inl e, w2) \<Rightarrow> Some (Inl e, w2, s)
                   | Some (Inr woke_agent, w2) \<Rightarrow>
                       if \<not> woke_agent then
                         Some (Inr False, w2,
                               s\<lparr>logged := logged s @
                                   [(ERROR, ''Unable to locate agent id ({}) in RSE Heartbeats'',
                                     [ArgId machine_agent_id])]\<rparr>)
                       else if keep_agent_awake then
                         (case wake_period of
                            Some period \<Rightarrow>
                              (case KeepAgentAwake machine_agent_id period s of
                                 (Some e, s1) \<Rightarrow> Some (Inl e, w2, s1)
                               | (None, s1) \<Rightarrow> Some (Inr True, w2, s1))
                          | None \<Rightarrow>
                              (let s0 = s\<lparr>logged := logged s @
                                          [(DEBUG, ''Rse config: {0:}'',
                                            [ArgJson rse_heartbeat_config])]\<rparr>
                               in case default_wake_period rse_heartbeat_config of
                                    Inl e \<Rightarrow> Some (Inl e, w2, s0)
                                  | Inr period \<Rightarrow>
                                      (case KeepAgentAwake machine_agent_id period s0 of
                                         (Some e, s1) \<Rightarrow> Some (Inl e, w2, s1)
                                       | (None, s1) \<Rightarrow> Some (Inr True, w2, s1))))
                       else Some (Inr True, w2, s))
             else
               Some (Inr False, w1,
                     s\<lparr>logged := logged s @
                         [(ERROR, ''Unable to wake all agents. Status Code = {}'',
                           [ArgInt wakeup_status_code])]\<rparr>))"

section \<open>agents.py: the keep-awake thread function\<close>

text \<open>
  The thread's view of its \<^verbatim>\<open>my_notifier\<close> event: the flag, and the \<^verbatim>\<open>set()\<close>
  calls of other threads, given as a schedule: \<open>signalled k\<close> says whether some
  other thread has called \<^verbatim>\<open>set()\<close> since the previous checkpoint when the thread
  reaches its \<open>k\<close>-th checkpoint.
\<close>

record notifier =
  flag :: bool
  signalled :: "nat \<Rightarrow> bool"
  checks :: nat
  thread_log :: "log_rec list"

text \<open>
  \<^verbatim>\<open>
  def __check_notifier(notifier):
      if notifier.is_set():
          notifier.clear()
          log.debug('{0:}: Detected termination.'.format(data.log_prefix))
          return False
      return True
  \<close>
\<close>

definition is_set :: "notifier \<Rightarrow> bool" where
  "is_set n = (flag n \<or> signalled n (checks n))"

definition check_notifier :: "notifier \<Rightarrow> bool \<times> notifier" where
  "check_notifier n =
     (if is_set n then
        (False, n\<lparr>flag := False, checks := checks n + 1,
                  thread_log := thread_log n @ [(DEBUG, ''{0:}: Detected termination.'', [])]\<rparr>)
      else (True, n\<lparr>checks := checks n + 1\<rparr>))"

text \<open>
  The wait for the period:
  \<^verbatim>\<open>
  while ((int(round(time.time() * 1000))) < finish_time) and continue_loop:
      continue_loop = __check_notifier(my_notifier)
      time.sleep(1)
  \<close>
\<close>

partial_function (option) period_wait :: "rat \<Rightarrow> bool \<Rightarrow> notifier \<Rightarrow> world \<Rightarrow> (bool \<times> notifier \<times> world) option" where
  "period_wait finish_time continue_loop n w =
     (if of_int (now w) < finish_time \<and> continue_loop then
        (case check_notifier n of
           (c, n1) \<Rightarrow> period_wait finish_time c n1 (tick w))
      else Some (continue_loop, n, tick w))"

text \<open>
  The main loop of \<^verbatim>\<open>_keep_agent_wake_thread_fn\<close>, with its own \<^verbatim>\<open>Agents\<close>
  instance \<open>eng\<close> and the 10 second timeout:
  \<^verbatim>\<open>
  while continue_loop:
      continue_loop = __check_notifier(my_notifier)
      if not continue_loop:
          break
      if data.agent_engine.WakeSpecificAgent(agent_id, data.rse_engine, rse_timeout):
          start_time = int(round(time.time() * 1000))
          finish_time = start_time + rse_period
          while ...
      else:
          log.debug('{0:}: Failed to wake agent - {1:}'.format(data.log_prefix, agent_id))
  \<close>
  The first component of the result is the exception that ended the thread, if any.
\<close>

partial_function (option) keep_wake_loop ::
  "agent_id \<Rightarrow> rat \<Rightarrow> notifier \<Rightarrow> world \<Rightarrow> agents
     \<Rightarrow> (py_error option \<times> notifier \<times> world \<times> agents) option" where
  "keep_wake_loop agent_id rse_period n w eng =
     (case check_notifier n of
        (continue_loop, n1) \<Rightarrow>
          if \<not> continue_loop then Some (None, n1, w, eng)
          else
            (case WakeSpecificAgent agent_id 10000 False None JNull w eng of
               None \<Rightarrow> None
             | Some (Inl e, w1, eng1) \<Rightarrow> Some (Some e, n1, w1, eng1)
             | Some (Inr woke, w1, eng1) \<Rightarrow>
                 if woke then
                   (let start_time = now w1;
                        finish_time = of_int start_time + rse_period
                    in case period_wait finish_time True n1 (tick w1) of
                         None \<Rightarrow> None
                       | Some (c, n2, w2) \<Rightarrow>
                           if c then keep_wake_loop agent_id rse_period n2 w2 eng1
                           else Some (None, n2, w2, eng1))
                 else
                   keep_wake_loop agent_id rse_period
                     (n1\<lparr>thread_log := thread_log n1 @
                          [(DEBUG, ''{0:}: Failed to wake agent - {1:}'', [ArgId agent_id])]\<rparr>)
                     w1 eng1))"

text \<open>
  \<^verbatim>\<open>_keep_agent_wake_thread_fn\<close>, called with all its required arguments (so the
  initial \<^verbatim>\<open>RuntimeError\<close> check passes): it builds its own \<^verbatim>\<open>Agents\<close>
  instance, logs its three start-up messages, runs the loop, and logs
  \<^verbatim>\<open>'Terminating'\<close> when the loop is left.
\<close>

definition log_startup :: "agent_id \<Rightarrow> notifier \<Rightarrow> notifier" where
  "log_startup agent_id n =
     n\<lparr>thread_log := thread_log n @
          [(DEBUG, ''{0:}: {1:}'', []),
           (DEBUG, ''{0:}: Agent Id - {1:}'', [ArgId agent_id]),
           (DEBUG, ''{0:}: RSE Period - {1:}'', [])]\<rparr>"

definition keep_agent_wake_thread_fn ::
  "agent_id \<Rightarrow> rat \<Rightarrow> notifier \<Rightarrow> world \<Rightarrow> (py_error option \<times> notifier \<times> world \<times> agents) option" where
  "keep_agent_wake_thread_fn agent_id rse_period n w =
     (case keep_wake_loop agent_id rse_period (log_startup agent_id n) w new_agents of
        None \<Rightarrow> None
      | Some (Some e, n1, w1, eng) \<Rightarrow> Some (Some e, n1, w1, eng)
      | Some (None, n1, w1, eng) \<Rightarrow>
          Some (None, n1\<lparr>thread_log := thread_log n1 @ [(DEBUG, ''{0:}: Terminating'', [])]\<rparr>, w1, eng))"

section \<open>Sample values used in the examples\<close>


text \<open>A heartbeat of agent \<open>agent\<close> that is \<open>age\<close> seconds old, and one without its age.\<close>

definition heartbeat_event :: "rat \<Rightarrow> rat \<Rightarrow> json" where
  "heartbeat_event agent age =
     JObj [(''data'', JObj [(''Event'', JStr ''Heartbeat''), (''MachineAgentId'', JNum agent)]),
           (''age'', JNum age)]"


section \<open>Notions used to state the properties of the log-level stack and the registry\<close>

text \<open>Whether \<^verbatim>\<open>SetLogLevel\<close> returns \<^verbatim>\<open>True\<close> (it neither raises nor returns \<^verbatim>\<open>False\<close>).\<close>

definition set_succeeds :: "string \<Rightarrow> int \<Rightarrow> bool" where
  "set_succeeds lvl status = (case SetLogLevel (LevelName lvl) status of Inl e \<Rightarrow> False | Inr r \<Rightarrow> fst r)"

definition saved_levels :: log_levels where
  "saved_levels = \<lparr>loglevel = [IdInt 1 \<mapsto> [''Warn'', ''Debug''], IdInt 2 \<mapsto> [''Info'']], level_log = []\<rparr>"

text \<open>
  A registry in which every entry has its event and its thread, the thread was given
  that very event as \<^verbatim>\<open>my_notifier\<close>, and no two entries share an event: the
  registries built by starting tasks for agent ids that are not registered yet.
\<close>

definition registry_ok :: "agents \<Rightarrow> bool" where
  "registry_ok s =
     (list_all (\<lambda>a. case terminator a of
                       None \<Rightarrow> False
                     | Some ev \<Rightarrow>
                         (case thread a of
                            None \<Rightarrow> False
                          | Some t \<Rightarrow> ev < length (events s) \<and> t < length (threads s)
                                      \<and> my_notifier (threads s ! t) = ev))
        (wake_agent_threads s)
      \<and> distinct (map terminator (wake_agent_threads s)))"




text \<open>
  Sequences of \<^verbatim>\<open>KeepAgentAwake\<close> and \<^verbatim>\<open>StopKeepAgentWake\<close> calls. A call that
  raises leaves the instance as it was at the raise, and the caller goes on; a call
  that never returns ends the sequence (\<open>None\<close>). Between the calls a keep-awake
  thread may also end on its own (an exception that the thread function does not
  catch): \<open>ThreadExit\<close>.
\<close>

datatype registry_op = Keep agent_id rat | Stop agent_id | ThreadExit nat

definition thread_exit :: "nat \<Rightarrow> agents \<Rightarrow> agents" where
  "thread_exit t s = s\<lparr>threads := (threads s)[t := (threads s ! t)\<lparr>running := False\<rparr>]\<rparr>"

fun run_op :: "registry_op \<Rightarrow> agents \<Rightarrow> agents option" where
  "run_op (Keep machine_agent_id period) s = Some (snd (KeepAgentAwake machine_agent_id period s))"
| "run_op (Stop machine_agent_id) s = map_option snd (StopKeepAgentWake machine_agent_id s)"
| "run_op (ThreadExit t) s = Some (thread_exit t s)"

fun run_ops :: "registry_op list \<Rightarrow> agents \<Rightarrow> agents option" where
  "run_ops [] s = Some s"
| "run_ops (x # xs) s = (case run_op x s of None \<Rightarrow> None | Some s' \<Rightarrow> run_ops xs s')"

text \<open>
  The active keep-awake tasks of an agent id: the threads started for it that have not
  returned; and the registry entries of that id that hold such a thread.
\<close>

definition active_tasks :: "agents \<Rightarrow> agent_id \<Rightarrow> nat list" where
  "active_tasks s machine_agent_id =
     filter (\<lambda>t. running (threads s ! t) \<and> thread_agent_id (threads s ! t) = machine_agent_id)
       [0..<length (threads s)]"

definition active_entries :: "agents \<Rightarrow> agent_id \<Rightarrow> wake_entry list" where
  "active_entries s machine_agent_id =
     filter (\<lambda>a. entry_id a = machine_agent_id
                 \<and> (case thread a of None \<Rightarrow> False | Some t \<Rightarrow> running (threads s ! t)))
       (wake_agent_threads s)"

text \<open>The invariant of the registry: what each entry says about its thread.\<close>

definition tasks :: "agents \<Rightarrow> (agent_id \<times> nat option) list" where
  "tasks s = map (\<lambda>a. (entry_id a, thread a)) (wake_agent_threads s)"

definition registry_inv :: "agents \<Rightarrow> bool" where
  "registry_inv s =
     ((\<forall>t < length (threads s). running (threads s ! t) \<longrightarrow>
          (thread_agent_id (threads s ! t), Some t) \<in> set (tasks s))
      \<and> (\<forall>i t. (i, Some t) \<in> set (tasks s) \<longrightarrow>
             t < length (threads s) \<and> thread_agent_id (threads s ! t) = i)
      \<and> distinct (map fst (filter (\<lambda>p. snd p \<noteq> None) (tasks s))))"

text \<open>
  Sample states: after one start for agent 1; after starts for agents 1 and 2; after a
  second start for agent 1.
\<close>

definition one_task :: agents where
  "one_task =
     \<lparr>wake_agent_threads = [\<lparr>entry_id = IdInt 1, terminator = Some 0, thread = Some 0\<rparr>],
      events = [False],
      threads = [\<lparr>my_notifier = 0, thread_agent_id = IdInt 1, thread_period = 70, running = True\<rparr>],
      logged = [(DEBUG, ''Starting RSE Wakeup Thread for agent: {0:}'', [ArgId (IdInt 1)])],
      calls = []\<rparr>"


definition after_second_start :: agents where
  "after_second_start =
     \<lparr>wake_agent_threads =
        [\<lparr>entry_id = IdInt 1, terminator = Some 1, thread = Some 0\<rparr>,
         \<lparr>entry_id = IdInt 1, terminator = None, thread = None\<rparr>],
      events = [False, False],
      threads = [\<lparr>my_notifier = 0, thread_agent_id = IdInt 1, thread_period = 70, running = True\<rparr>],
      logged = [(DEBUG, ''Starting RSE Wakeup Thread for agent: {0:}'', [ArgId (IdInt 1)]),
                (DEBUG, ''Starting RSE Wakeup Thread for agent: {0:}'', [ArgId (IdInt 1)])],
      calls = []\<rparr>"

text \<open>
  Sample worlds. The clock advances by one second from one reading to the next. One
  server never acknowledges a wake request; the other acknowledges at once, and its
  channel holds a fresh heartbeat of agent 42.
\<close>

definition silent_server :: world where
  "silent_server =
     \<lparr>clock = (\<lambda>k. 1000 * int k), ticks = 0, wake_status = (\<lambda>k. 503), wakes = 0,
      polls = (\<lambda>k. JNull), monitors = 0\<rparr>"

definition responsive_server :: world where
  "responsive_server =
     \<lparr>clock = (\<lambda>k. 1000 * int k), ticks = 0, wake_status = (\<lambda>k. 200), wakes = 0,
      polls = (\<lambda>k. JArr [heartbeat_event 42 3]), monitors = 0\<rparr>"

definition after_wake :: world where
  "after_wake = responsive_server\<lparr>ticks := 2, wakes := 1\<rparr>"

definition after_heartbeat :: world where
  "after_heartbeat = responsive_server\<lparr>ticks := 4, wakes := 1, monitors := 1\<rparr>"



text \<open>
  A notifier that some other thread sets between the first and the second checkpoint,
  and what is left of it when the thread has returned.
\<close>

definition waiting_notifier :: notifier where
  "waiting_notifier = \<lparr>flag = False, signalled = (\<lambda>k. k = 1), checks = 0, thread_log = []\<rparr>"

definition stopped_notifier :: notifier where
  "stopped_notifier =
     \<lparr>flag = False, signalled = (\<lambda>k. k = 1), checks = 2,
      thread_log = [(DEBUG, ''{0:}: {1:}'', []),
                    (DEBUG, ''{0:}: Agent Id - {1:}'', [ArgId (IdInt 42)]),
                    (DEBUG, ''{0:}: RSE Period - {1:}'', []),
                    (DEBUG, ''{0:}: Detected termination.'', []),
                    (DEBUG, ''{0:}: Terminating'', [])]\<rparr>"

section \<open>Properties of MonitorForHeartBeat\<close>

lemma subscript_obj_cases:
  "subscript x k = Inr v \<Longrightarrow> \<exists>kvs. x = JObj kvs \<and> map_of kvs k = Some v"
  by (cases x) (auto split: option.splits)





lemma monitor_bare:
  assumes "JStr ''events'' \<notin> set evs"
  shows "returned (MonitorForHeartBeat mid (JArr evs)) =
     (case scan_events mid evs of Inl KeyError \<Rightarrow> Inr False | Inl e \<Rightarrow> Inl e | Inr b \<Rightarrow> Inr b)"
  using assms
  by (auto simp: MonitorForHeartBeat_def monitor_try_def returned_def split: sum.splits py_error.splits)

lemma monitor_envelope:
  assumes "map_of kvs ''events'' = Some (JArr evs)"
  shows "returned (MonitorForHeartBeat mid (JObj kvs)) =
     (case scan_events mid evs of Inl KeyError \<Rightarrow> Inr False | Inl e \<Rightarrow> Inl e | Inr b \<Rightarrow> Inr b)"
proof -
  have "''events'' \<in> set (map fst kvs)"
    using assms by (metis map_of_eq_None_iff option.distinct(1) set_map)
  then show ?thesis using assms
    by (auto simp: MonitorForHeartBeat_def monitor_try_def returned_def split: sum.splits py_error.splits)
qed








text \<open>
  C6. For a list of events (none of which is the bare string \<^verbatim>\<open>'events'\<close>), the
  envelope \<^verbatim>\<open>{'events': [...]}\<close> and the bare list are iterated as the same
  sequence and give the same returned value (or the same exception).
\<close>

theorem envelope_equals_bare:
  assumes "JStr ''events'' \<notin> set evs"
      and "map_of kvs ''events'' = Some (JArr evs)"
  shows "returned (MonitorForHeartBeat machine_agent_id (JObj kvs)) =
           returned (MonitorForHeartBeat machine_agent_id (JArr evs))
       \<and> (case subscript (JObj kvs) ''events'' of Inl e \<Rightarrow> Inl e | Inr x \<Rightarrow> py_iter x) =
           py_iter (JArr evs)"
  using assms by (simp add: monitor_bare monitor_envelope)

theorem envelope_equals_bare_witness:
  "JStr ''events'' \<notin> set [heartbeat_event 7 3, heartbeat_event 42 3]
   \<and> map_of [(''events'', JArr [heartbeat_event 7 3, heartbeat_event 42 3])] ''events''
       = Some (JArr [heartbeat_event 7 3, heartbeat_event 42 3])
   \<and> returned (MonitorForHeartBeat (IdInt 42)
        (JObj [(''events'', JArr [heartbeat_event 7 3, heartbeat_event 42 3])])) =
     returned (MonitorForHeartBeat (IdInt 42) (JArr [heartbeat_event 7 3, heartbeat_event 42 3]))
   \<and> returned (MonitorForHeartBeat (IdInt 42)
        (JArr [heartbeat_event 7 3, heartbeat_event 42 3])) = Inr True"
proof -
  let ?evs = "[heartbeat_event 7 3, heartbeat_event 42 3]"
  have h1: "JStr ''events'' \<notin> set ?evs"
    by (simp add: heartbeat_event_def)
  have h2: "map_of [(''events'', JArr ?evs)] ''events'' = Some (JArr ?evs)"
    by simp
  have v: "returned (MonitorForHeartBeat (IdInt 42) (JArr ?evs)) = Inr True"
    by (simp add: MonitorForHeartBeat_def monitor_try_def returned_def heartbeat_check_def
        heartbeat_event_def)
  show ?thesis
    using envelope_equals_bare [OF h1 h2, of "IdInt 42"] h1 h2 v by simp
qed

section \<open>Properties of PopLogLevel\<close>

lemma pop_last: "xs \<noteq> [] \<Longrightarrow> take (length xs - Suc 0) xs = butlast xs"
  by (simp add: butlast_conv_take)

lemma nth_last: "xs \<noteq> [] \<Longrightarrow> xs ! (length xs - Suc 0) = last xs"
  by (simp add: last_conv_nth)

text \<open>
  C10. With a non-empty saved stack, \<^verbatim>\<open>PopLogLevel\<close> removes the top entry exactly
  when \<^verbatim>\<open>SetLogLevel\<close> for that entry returns success, and otherwise leaves the
  stacks as they were; the stacks of all other agents are never touched; with an empty
  or absent stack nothing changes.
\<close>

theorem PopLogLevel_atomic:
  "(\<forall>stack. loglevel s machine_agent_id = Some stack \<and> stack \<noteq> [] \<longrightarrow>
      (if set_succeeds (last stack) status
       then loglevel (snd (PopLogLevel machine_agent_id status s)) =
              (loglevel s)(machine_agent_id \<mapsto> butlast stack)
       else loglevel (snd (PopLogLevel machine_agent_id status s)) = loglevel s))
   \<and> (\<forall>other. other \<noteq> machine_agent_id \<longrightarrow>
          loglevel (snd (PopLogLevel machine_agent_id status s)) other = loglevel s other)
   \<and> (loglevel s machine_agent_id = None \<or> loglevel s machine_agent_id = Some [] \<longrightarrow>
          loglevel (snd (PopLogLevel machine_agent_id status s)) = loglevel s)"
proof (intro conjI allI impI)
  fix stack
  assume a: "loglevel s machine_agent_id = Some stack \<and> stack \<noteq> []"
  then show "if set_succeeds (last stack) status
       then loglevel (snd (PopLogLevel machine_agent_id status s)) =
              (loglevel s)(machine_agent_id \<mapsto> butlast stack)
       else loglevel (snd (PopLogLevel machine_agent_id status s)) = loglevel s"
    by (auto simp: PopLogLevel_def set_succeeds_def Let_def pop_last nth_last
        split: sum.splits prod.splits)
next
  fix other
  assume "other \<noteq> machine_agent_id"
  then show "loglevel (snd (PopLogLevel machine_agent_id status s)) other = loglevel s other"
    by (auto simp: PopLogLevel_def Let_def split: option.splits sum.splits prod.splits)
next
  assume "loglevel s machine_agent_id = None \<or> loglevel s machine_agent_id = Some []"
  then show "loglevel (snd (PopLogLevel machine_agent_id status s)) = loglevel s"
    by (auto simp: PopLogLevel_def)
qed

theorem PopLogLevel_atomic_witness:
  "loglevel saved_levels (IdInt 1) = Some [''Warn'', ''Debug'']
   \<and> set_succeeds ''Debug'' 204
   \<and> \<not> set_succeeds ''Debug'' 500
   \<and> loglevel (snd (PopLogLevel (IdInt 1) 204 saved_levels)) (IdInt 1) = Some [''Warn'']
   \<and> loglevel (snd (PopLogLevel (IdInt 1) 500 saved_levels)) = loglevel saved_levels
   \<and> loglevel (snd (PopLogLevel (IdInt 1) 204 saved_levels)) (IdInt 2) = Some [''Info'']
   \<and> loglevel (snd (PopLogLevel (IdInt 3) 204 saved_levels)) = loglevel saved_levels"
proof -
  have st: "loglevel saved_levels (IdInt 1) = Some [''Warn'', ''Debug'']"
    by (simp add: saved_levels_def)
  have ok: "set_succeeds ''Debug'' 204" and ko: "\<not> set_succeeds ''Debug'' 500"
    by (simp_all add: set_succeeds_def SetLogLevel_def)
  have o2: "loglevel saved_levels (IdInt 2) = Some [''Info'']"
    by (simp add: saved_levels_def)
  have n3: "loglevel saved_levels (IdInt 3) = None"
    by (simp add: saved_levels_def)
  show ?thesis
    using PopLogLevel_atomic [of saved_levels "IdInt 1" 204]
      PopLogLevel_atomic [of saved_levels "IdInt 1" 500]
      PopLogLevel_atomic [of saved_levels "IdInt 3" 204]
      st ok ko o2 n3
    by simp
qed

section \<open>Properties of the registry of keep-awake threads\<close>

lemma find_thread_None: "find_thread mid reg = None \<longleftrightarrow> mid \<notin> set (map entry_id reg)"
  by (induction reg) auto

lemma find_thread_Some:
  "find_thread mid reg = Some i \<Longrightarrow>
     i < length reg \<and> entry_id (reg ! i) = mid \<and> (\<forall>j < i. entry_id (reg ! j) \<noteq> mid)"
proof (induction reg arbitrary: i)
  case Nil
  then show ?case by simp
next
  case (Cons a reg)
  show ?case
  proof (cases "entry_id a = mid")
    case True
    with Cons.prems show ?thesis by simp
  next
    case False
    with Cons.prems obtain k where k: "find_thread mid reg = Some k" "i = Suc k"
      by auto
    from Cons.IH [OF k(1)] False k(2) show ?thesis
      by (auto simp: less_Suc_eq_0_disj)
  qed
qed

lemma find_thread_append_fresh:
  "mid \<notin> set (map entry_id reg) \<Longrightarrow> entry_id a = mid \<Longrightarrow>
     find_thread mid (reg @ [a]) = Some (length reg)"
  by (induction reg) auto

lemma find_thread_append_old:
  "mid \<in> set (map entry_id reg) \<Longrightarrow>
     \<exists>i < length reg. find_thread mid (reg @ [a]) = Some i"
  by (induction reg) auto

text \<open>The two ways \<^verbatim>\<open>KeepAgentAwake\<close> can go.\<close>

lemma KeepAgentAwake_fresh:
  assumes "mid \<notin> set (map entry_id (wake_agent_threads s))"
  shows "KeepAgentAwake mid period s =
     (None, s\<lparr>wake_agent_threads := wake_agent_threads s @
                 [\<lparr>entry_id = mid, terminator = Some (length (events s)),
                   thread = Some (length (threads s))\<rparr>],
             events := events s @ [False],
             logged := logged s @
               [(DEBUG, ''Starting RSE Wakeup Thread for agent: {0:}'', [ArgId mid])],
             threads := threads s @
               [\<lparr>my_notifier = length (events s), thread_agent_id = mid,
                 thread_period = period, running = True\<rparr>]\<rparr>)"
  using find_thread_append_fresh [OF assms, of "\<lparr>entry_id = mid, terminator = None, thread = None\<rparr>"]
  by (simp add: KeepAgentAwake_def Let_def)

lemma KeepAgentAwake_duplicate:
  assumes "mid \<in> set (map entry_id (wake_agent_threads s))"
  shows "\<exists>i < length (wake_agent_threads s).
     KeepAgentAwake mid period s =
     (Some KeyError,
      s\<lparr>wake_agent_threads :=
           (wake_agent_threads s)[i := (wake_agent_threads s ! i)\<lparr>terminator := Some (length (events s))\<rparr>]
             @ [\<lparr>entry_id = mid, terminator = None, thread = None\<rparr>],
        events := events s @ [False],
        logged := logged s @
          [(DEBUG, ''Starting RSE Wakeup Thread for agent: {0:}'', [ArgId mid])]\<rparr>)"
proof -
  from find_thread_append_old [OF assms, of "\<lparr>entry_id = mid, terminator = None, thread = None\<rparr>"]
  obtain i where i: "i < length (wake_agent_threads s)"
    "find_thread mid (wake_agent_threads s @ [\<lparr>entry_id = mid, terminator = None, thread = None\<rparr>]) = Some i"
    by blast
  then have "KeepAgentAwake mid period s =
     (Some KeyError,
      s\<lparr>wake_agent_threads :=
           (wake_agent_threads s)[i := (wake_agent_threads s ! i)\<lparr>terminator := Some (length (events s))\<rparr>]
             @ [\<lparr>entry_id = mid, terminator = None, thread = None\<rparr>],
        events := events s @ [False],
        logged := logged s @
          [(DEBUG, ''Starting RSE Wakeup Thread for agent: {0:}'', [ArgId mid])]\<rparr>)"
    by (simp add: KeepAgentAwake_def Let_def nth_append list_update_append)
  with i(1) show ?thesis by blast
qed

lemma first_start: "KeepAgentAwake (IdInt 1) 70 new_agents = (None, one_task)"
  by (simp add: one_task_def new_agents_def KeepAgentAwake_def Let_def)


lemma second_start: "KeepAgentAwake (IdInt 1) 70 one_task = (Some KeyError, after_second_start)"
  by (simp add: one_task_def after_second_start_def KeepAgentAwake_def Let_def)

lemma run_two_starts:
  "run_ops [Keep (IdInt 1) 70, Keep (IdInt 1) 70] new_agents = Some after_second_start"
  by (simp add: first_start second_start)

text \<open>
  C8, as stated, fails in one point: stopping an agent id that has no registered task
  logs nothing (the loop body, which holds the only logging calls, never runs).
\<close>

theorem stop_unknown_agent_not_logged_counterexample:
  "find_thread (IdInt 7) (wake_agent_threads new_agents) = None
   \<and> map_option (\<lambda>r. logged (snd r)) (StopKeepAgentWake (IdInt 7) new_agents) = Some []"
  by (simp add: StopKeepAgentWake_def new_agents_def)

text \<open>
  C8, amended. For an agent id with no registered task, \<^verbatim>\<open>StopKeepAgentWake\<close>
  is a silent no-op: it raises nothing and leaves the registry, the log and everything
  else unchanged, so a second stop behaves in the same way.
\<close>

theorem stop_unknown_agent_noop:
  assumes "machine_agent_id \<notin> set (map entry_id (wake_agent_threads s))"
  shows "StopKeepAgentWake machine_agent_id s = Some (None, s)
       \<and> Option.bind (StopKeepAgentWake machine_agent_id s)
            (\<lambda>r. StopKeepAgentWake machine_agent_id (snd r)) = Some (None, s)"
proof -
  have "find_thread machine_agent_id (wake_agent_threads s) = None"
    using assms by (simp add: find_thread_None)
  then show ?thesis
    by (simp add: StopKeepAgentWake_def)
qed

theorem stop_unknown_agent_noop_witness:
  "IdInt 7 \<notin> set (map entry_id (wake_agent_threads one_task))
   \<and> StopKeepAgentWake (IdInt 7) one_task = Some (None, one_task)"
proof -
  have h: "IdInt 7 \<notin> set (map entry_id (wake_agent_threads one_task))"
    by (simp add: one_task_def)
  show ?thesis
    using stop_unknown_agent_noop [OF h] h by simp
qed

lemma set_event_simps [simp]:
  "events (set_event ev s) = (events s)[ev := True]"
  "threads (set_event ev s) = threads s"
  "wake_agent_threads (set_event ev s) = wake_agent_threads s"
  "calls (set_event ev s) = calls s @ [EventSet ev]"
  "logged (set_event ev s) = logged s"
  by (simp_all add: set_event_def)



lemma join_returns:
  assumes "t < length (threads s)"
      and "my_notifier (threads s ! t) < length (events s)"
      and "events s ! my_notifier (threads s ! t)"
  shows "\<exists>s'. join t s = Some s'
           \<and> calls s' = calls s @ [ThreadJoin t]
           \<and> wake_agent_threads s' = wake_agent_threads s
           \<and> length (threads s') = length (threads s)
           \<and> length (events s') = length (events s)
           \<and> \<not> running (threads s' ! t)
           \<and> (\<forall>u. u \<noteq> t \<longrightarrow> threads s' ! u = threads s ! u)
           \<and> (\<forall>u. my_notifier (threads s' ! u) = my_notifier (threads s ! u))
           \<and> (\<forall>u. \<not> running (threads s ! u) \<longrightarrow> \<not> running (threads s' ! u))
           \<and> (\<forall>e. e \<noteq> my_notifier (threads s ! t) \<longrightarrow> events s' ! e = events s ! e)"
proof (cases "running (threads s ! t)")
  case False
  then show ?thesis by (simp add: join_def Let_def)
next
  case True
  let ?s' = "s\<lparr>calls := calls s @ [ThreadJoin t],
               events := (events s)[my_notifier (threads s ! t) := False],
               threads := (threads s)[t := (threads s ! t)\<lparr>running := False\<rparr>]\<rparr>"
  have j: "join t s = Some ?s'"
    using True assms(3) by (simp add: join_def Let_def)
  have "\<not> running (threads ?s' ! t)" using assms(1) by simp
  moreover have "\<forall>u. u \<noteq> t \<longrightarrow> threads ?s' ! u = threads s ! u" by simp
  moreover have "\<forall>u. my_notifier (threads ?s' ! u) = my_notifier (threads s ! u)"
    using assms(1) by (simp add: nth_list_update)
  moreover have "\<forall>u. \<not> running (threads s ! u) \<longrightarrow> \<not> running (threads ?s' ! u)"
    using assms(1) by (simp add: nth_list_update)
  moreover have "\<forall>e. e \<noteq> my_notifier (threads s ! t) \<longrightarrow> events ?s' ! e = events s ! e"
    by simp
  ultimately show ?thesis using j by simp
qed


text \<open>
  Registries of the kind described by \<open>registry_ok\<close> are the ones that arise: the
  fresh instance has one, a start for an agent id that is not registered yet keeps it,
  and on such a registry every stop returns and keeps it.
\<close>

lemma registry_ok_new: "registry_ok new_agents"
  by (simp add: registry_ok_def new_agents_def)

lemma registry_ok_entry:
  assumes "registry_ok s" and "a \<in> set (wake_agent_threads s)"
  shows "\<exists>ev t. terminator a = Some ev \<and> thread a = Some t
      \<and> ev < length (events s) \<and> t < length (threads s) \<and> my_notifier (threads s ! t) = ev"
proof -
  from assms have "case terminator a of
                     None \<Rightarrow> False
                   | Some ev \<Rightarrow>
                       (case thread a of
                          None \<Rightarrow> False
                        | Some t \<Rightarrow> ev < length (events s) \<and> t < length (threads s)
                                    \<and> my_notifier (threads s ! t) = ev)"
    by (simp add: registry_ok_def list_all_iff)
  then show ?thesis
    by (cases "terminator a"; cases "thread a") simp_all
qed

lemma registry_okI:
  assumes "\<And>a. a \<in> set (wake_agent_threads s) \<Longrightarrow> \<exists>ev t. terminator a = Some ev \<and> thread a = Some t
      \<and> ev < length (events s) \<and> t < length (threads s) \<and> my_notifier (threads s ! t) = ev"
      and "distinct (map terminator (wake_agent_threads s))"
  shows "registry_ok s"
  unfolding registry_ok_def list_all_iff
proof (intro conjI ballI)
  fix a assume "a \<in> set (wake_agent_threads s)"
  from assms(1) [OF this] show "case terminator a of
                     None \<Rightarrow> False
                   | Some ev \<Rightarrow>
                       (case thread a of
                          None \<Rightarrow> False
                        | Some t \<Rightarrow> ev < length (events s) \<and> t < length (threads s)
                                    \<and> my_notifier (threads s ! t) = ev)"
    by auto
next
  show "distinct (map terminator (wake_agent_threads s))" by (rule assms(2))
qed

lemma registry_ok_keep_fresh:
  assumes "registry_ok s" and "mid \<notin> set (map entry_id (wake_agent_threads s))"
  shows "fst (KeepAgentAwake mid period s) = None
       \<and> registry_ok (snd (KeepAgentAwake mid period s))"
proof -
  let ?s' = "snd (KeepAgentAwake mid period s)"
  let ?new = "\<lparr>entry_id = mid, terminator = Some (length (events s)),
                   thread = Some (length (threads s))\<rparr>"
  have k: "wake_agent_threads ?s' = wake_agent_threads s @ [?new]"
    "events ?s' = events s @ [False]"
    "threads ?s' = threads s @ [\<lparr>my_notifier = length (events s), thread_agent_id = mid,
                 thread_period = period, running = True\<rparr>]"
    "fst (KeepAgentAwake mid period s) = None"
    by (simp_all add: KeepAgentAwake_fresh [OF assms(2)])
  have "registry_ok ?s'"
  proof (rule registry_okI)
    fix a assume "a \<in> set (wake_agent_threads ?s')"
    then consider "a \<in> set (wake_agent_threads s)" | "a = ?new"
      by (auto simp: k(1))
    then show "\<exists>ev t. terminator a = Some ev \<and> thread a = Some t
      \<and> ev < length (events ?s') \<and> t < length (threads ?s') \<and> my_notifier (threads ?s' ! t) = ev"
    proof cases
      case 1
      from registry_ok_entry [OF assms(1) 1] show ?thesis
        by (auto simp: k nth_append)
    next
      case 2
      then show ?thesis by (simp add: k)
    qed
  next
    have "Some (length (events s)) \<notin> set (map terminator (wake_agent_threads s))"
    proof
      assume "Some (length (events s)) \<in> set (map terminator (wake_agent_threads s))"
      then obtain a where a: "a \<in> set (wake_agent_threads s)" "terminator a = Some (length (events s))"
        by auto
      from registry_ok_entry [OF assms(1) a(1)] a(2) show False by auto
    qed
    moreover have "distinct (map terminator (wake_agent_threads s))"
      using assms(1) by (simp add: registry_ok_def)
    ultimately show "distinct (map terminator (wake_agent_threads ?s'))"
      by (simp add: k(1))
  qed
  with k(4) show ?thesis by simp
qed

lemma distinct_map_remove1:
  "distinct (map f xs) \<Longrightarrow> distinct (map f (remove1 x xs))"
proof (induction xs)
  case Nil
  then show ?case by simp
next
  case (Cons y xs)
  have "set (remove1 x xs) \<subseteq> set xs" by (rule set_remove1_subset)
  with Cons show ?case by auto
qed

lemma registry_ok_stop:
  assumes "registry_ok s"
  shows "\<exists>s'. StopKeepAgentWake mid s = Some (None, s') \<and> registry_ok s'
           \<and> length (wake_agent_threads s') \<le> length (wake_agent_threads s)"
proof (cases "find_thread mid (wake_agent_threads s)")
  case None
  with assms show ?thesis by (simp add: StopKeepAgentWake_def)
next
  case (Some i)
  let ?a = "wake_agent_threads s ! i"
  have ain: "?a \<in> set (wake_agent_threads s)"
    using find_thread_Some [OF Some] by simp
  from registry_ok_entry [OF assms ain] obtain ev t where a: "terminator ?a = Some ev"
    "thread ?a = Some t" "ev < length (events s)" "t < length (threads s)"
    "my_notifier (threads s ! t) = ev"
    by blast
  let ?s1 = "s\<lparr>logged := logged s @
                      [(DEBUG, ''Telling for RSE Wakeup Thread {0:} for agent {1:} to terminate'',
                        [ArgId (entry_id ?a), ArgId mid])]\<rparr>"
  let ?s2 = "set_event ev ?s1"
  let ?s3 = "?s2\<lparr>logged := logged ?s2 @
                              [(DEBUG, ''Waiting for RSE Wakeup Thread {0:} to rejoin'',
                                [ArgId (entry_id ?a)])]\<rparr>"
  have s3: "threads ?s3 = threads s" "events ?s3 = (events s)[ev := True]"
    "wake_agent_threads ?s3 = wake_agent_threads s"
    by simp_all
  have "\<exists>s4. join t ?s3 = Some s4
           \<and> calls s4 = calls ?s3 @ [ThreadJoin t]
           \<and> wake_agent_threads s4 = wake_agent_threads ?s3
           \<and> length (threads s4) = length (threads ?s3)
           \<and> length (events s4) = length (events ?s3)
           \<and> \<not> running (threads s4 ! t)
           \<and> (\<forall>u. u \<noteq> t \<longrightarrow> threads s4 ! u = threads ?s3 ! u)
           \<and> (\<forall>u. my_notifier (threads s4 ! u) = my_notifier (threads ?s3 ! u))
           \<and> (\<forall>u. \<not> running (threads ?s3 ! u) \<longrightarrow> \<not> running (threads s4 ! u))
           \<and> (\<forall>e. e \<noteq> my_notifier (threads ?s3 ! t) \<longrightarrow> events s4 ! e = events ?s3 ! e)"
    using a s3 by (intro join_returns) simp_all
  then obtain s4 where s4: "join t ?s3 = Some s4"
    "wake_agent_threads s4 = wake_agent_threads s"
    "length (threads s4) = length (threads s)"
    "length (events s4) = length (events s)"
    "\<forall>u. my_notifier (threads s4 ! u) = my_notifier (threads s ! u)"
    by auto
  let ?s' = "s4\<lparr>wake_agent_threads := remove1 ?a (wake_agent_threads s4)\<rparr>"
  have stop: "StopKeepAgentWake mid s = Some (None, ?s')"
    using Some a(1,2) s4(1) by (simp add: StopKeepAgentWake_def Let_def)
  have ok: "registry_ok ?s'"
  proof (rule registry_okI)
    fix b assume "b \<in> set (wake_agent_threads ?s')"
    then have "b \<in> set (wake_agent_threads s)"
      using s4(2) set_remove1_subset [of ?a "wake_agent_threads s"] by auto
    from registry_ok_entry [OF assms this] show "\<exists>ev t. terminator b = Some ev \<and> thread b = Some t
      \<and> ev < length (events ?s') \<and> t < length (threads ?s') \<and> my_notifier (threads ?s' ! t) = ev"
      using s4(3,4,5) by auto
  next
    have "distinct (map terminator (wake_agent_threads s))"
      using assms by (simp add: registry_ok_def)
    then show "distinct (map terminator (wake_agent_threads ?s'))"
      using s4(2) by (simp add: distinct_map_remove1)
  qed
  have "length (wake_agent_threads ?s') \<le> length (wake_agent_threads s)"
    using s4(2) ain by (simp add: length_remove1)
  with stop ok show ?thesis by blast
qed



lemma tasks_terminator_update:
  "map (\<lambda>a. (entry_id a, thread a)) (reg[i := (reg ! i)\<lparr>terminator := v\<rparr>]) =
   map (\<lambda>a. (entry_id a, thread a)) reg"
proof (rule nth_equalityI)
  show "length (map (\<lambda>a. (entry_id a, thread a)) (reg[i := (reg ! i)\<lparr>terminator := v\<rparr>])) =
        length (map (\<lambda>a. (entry_id a, thread a)) reg)"
    by simp
next
  fix j assume "j < length (map (\<lambda>a. (entry_id a, thread a)) (reg[i := (reg ! i)\<lparr>terminator := v\<rparr>]))"
  then have j: "j < length reg" by simp
  show "map (\<lambda>a. (entry_id a, thread a)) (reg[i := (reg ! i)\<lparr>terminator := v\<rparr>]) ! j =
        map (\<lambda>a. (entry_id a, thread a)) reg ! j"
    using j by (cases "i = j") simp_all
qed

lemma registry_inv_new: "registry_inv new_agents"
  by (simp add: registry_inv_def new_agents_def tasks_def)

lemma registry_inv_keep:
  assumes "registry_inv s"
  shows "registry_inv (snd (KeepAgentAwake mid period s))"
proof (cases "mid \<in> set (map entry_id (wake_agent_threads s))")
  case True
  from KeepAgentAwake_duplicate [OF True, of period] obtain i where
    k: "KeepAgentAwake mid period s =
     (Some KeyError,
      s\<lparr>wake_agent_threads :=
           (wake_agent_threads s)[i := (wake_agent_threads s ! i)\<lparr>terminator := Some (length (events s))\<rparr>]
             @ [\<lparr>entry_id = mid, terminator = None, thread = None\<rparr>],
        events := events s @ [False],
        logged := logged s @
          [(DEBUG, ''Starting RSE Wakeup Thread for agent: {0:}'', [ArgId mid])]\<rparr>)"
    by blast
  let ?s' = "snd (KeepAgentAwake mid period s)"
  have t: "tasks ?s' = tasks s @ [(mid, None)]"
    by (simp add: k tasks_def tasks_terminator_update)
  have th: "threads ?s' = threads s"
    by (simp add: k)
  show ?thesis
    using assms unfolding registry_inv_def t th by auto
next
  case False
  let ?s' = "snd (KeepAgentAwake mid period s)"
  let ?th = "\<lparr>my_notifier = length (events s), thread_agent_id = mid,
                 thread_period = period, running = True\<rparr>"
  have t: "tasks ?s' = tasks s @ [(mid, Some (length (threads s)))]"
    by (simp add: KeepAgentAwake_fresh [OF False] tasks_def)
  have th: "threads ?s' = threads s @ [?th]"
    by (simp add: KeepAgentAwake_fresh [OF False])
  have fresh: "mid \<notin> fst ` set (tasks s)"
    using False by (auto simp: tasks_def)
  have a: "\<forall>t < length (threads ?s'). running (threads ?s' ! t) \<longrightarrow>
          (thread_agent_id (threads ?s' ! t), Some t) \<in> set (tasks ?s')"
    using assms unfolding registry_inv_def t th
    by (auto simp: nth_append less_Suc_eq)
  have b: "\<forall>i t. (i, Some t) \<in> set (tasks ?s') \<longrightarrow>
             t < length (threads ?s') \<and> thread_agent_id (threads ?s' ! t) = i"
    using assms unfolding registry_inv_def t th
    by (auto simp: nth_append less_Suc_eq)
  have c: "distinct (map fst (filter (\<lambda>p. snd p \<noteq> None) (tasks ?s')))"
    using assms fresh unfolding registry_inv_def t by auto
  show ?thesis
    unfolding registry_inv_def using a b c by blast
qed

lemma distinct_filter_remove1:
  "distinct (map f (filter Q (map g xs))) \<Longrightarrow>
   distinct (map f (filter Q (map g (remove1 x xs))))"
proof (induction xs)
  case Nil
  then show ?case by simp
next
  case (Cons y xs)
  have sub: "set (remove1 x xs) \<subseteq> set xs" by (rule set_remove1_subset)
  show ?case
  proof (cases "x = y")
    case True
    with Cons.prems show ?thesis by (simp split: if_splits)
  next
    case False
    with Cons show ?thesis using sub by (auto split: if_splits)
  qed
qed

lemma join_threads:
  assumes "join t s = Some s'"
  shows "wake_agent_threads s' = wake_agent_threads s
       \<and> length (threads s') = length (threads s)
       \<and> (t < length (threads s) \<longrightarrow> \<not> running (threads s' ! t))
       \<and> (\<forall>u. u \<noteq> t \<longrightarrow> threads s' ! u = threads s ! u)
       \<and> (\<forall>u. thread_agent_id (threads s' ! u) = thread_agent_id (threads s ! u))
       \<and> (\<forall>u. running (threads s' ! u) \<longrightarrow> running (threads s ! u))"
proof (cases "t < length (threads s)")
  case True
  with assms show ?thesis
    by (auto simp: join_def Let_def nth_list_update split: if_splits)
next
  case False
  then have "(threads s)[t := x] = threads s" for x
    by (simp add: not_less list_update_beyond)
  with assms False show ?thesis
    by (auto simp: join_def Let_def split: if_splits)
qed

lemma registry_inv_stop:
  assumes "registry_inv s" and "StopKeepAgentWake mid s = Some (r, s')"
  shows "registry_inv s'"
proof (cases "find_thread mid (wake_agent_threads s)")
  case None
  with assms show ?thesis by (simp add: StopKeepAgentWake_def)
next
  case (Some i)
  let ?a = "wake_agent_threads s ! i"
  show ?thesis
  proof (cases "terminator ?a")
    case None
    with Some assms(2) have "tasks s' = tasks s" "threads s' = threads s"
      by (auto simp: StopKeepAgentWake_def Let_def tasks_def)
    with assms(1) show ?thesis by (simp add: registry_inv_def)
  next
    case ev: (Some ev)
    show ?thesis
    proof (cases "thread ?a")
      case None
      with Some ev assms(2) have "tasks s' = tasks s" "threads s' = threads s"
        by (auto simp: StopKeepAgentWake_def Let_def tasks_def set_event_def)
      with assms(1) show ?thesis by (simp add: registry_inv_def)
    next
      case t: (Some t)
      let ?s3 = "(set_event ev (s\<lparr>logged := logged s @
                      [(DEBUG, ''Telling for RSE Wakeup Thread {0:} for agent {1:} to terminate'',
                        [ArgId (entry_id ?a), ArgId mid])]\<rparr>))
                 \<lparr>logged := logged s @
                      [(DEBUG, ''Telling for RSE Wakeup Thread {0:} for agent {1:} to terminate'',
                        [ArgId (entry_id ?a), ArgId mid])] @
                      [(DEBUG, ''Waiting for RSE Wakeup Thread {0:} to rejoin'',
                                [ArgId (entry_id ?a)])]\<rparr>"
      from Some ev t assms(2) obtain s4 where s4: "join t ?s3 = Some s4"
        "s' = s4\<lparr>wake_agent_threads := remove1 ?a (wake_agent_threads s4)\<rparr>"
        by (auto simp: StopKeepAgentWake_def Let_def set_event_def split: option.splits)
      have s3: "threads ?s3 = threads s" "wake_agent_threads ?s3 = wake_agent_threads s"
        by (simp_all add: set_event_def)
      from join_threads [OF s4(1)] s3 have j:
        "wake_agent_threads s4 = wake_agent_threads s"
        "length (threads s4) = length (threads s)"
        "t < length (threads s) \<longrightarrow> \<not> running (threads s4 ! t)"
        "\<forall>u. u \<noteq> t \<longrightarrow> threads s4 ! u = threads s ! u"
        "\<forall>u. thread_agent_id (threads s4 ! u) = thread_agent_id (threads s ! u)"
        "\<forall>u. running (threads s4 ! u) \<longrightarrow> running (threads s ! u)"
        by simp_all
      have reg': "wake_agent_threads s' = remove1 ?a (wake_agent_threads s)"
        and thr': "threads s' = threads s4"
        using s4(2) j(1) by simp_all
      have ain: "?a \<in> set (wake_agent_threads s)"
        using find_thread_Some [OF Some] by simp
      have sub: "set (tasks s') \<subseteq> set (tasks s)"
        unfolding tasks_def reg' using set_remove1_subset [of ?a "wake_agent_threads s"] by auto
      have tin: "t < length (threads s)"
      proof -
        have "(entry_id ?a, Some t) \<in> set (tasks s)"
          using ain t by (force simp: tasks_def)
        with assms(1) show ?thesis by (simp add: registry_inv_def)
      qed
      have a: "\<forall>u < length (threads s'). running (threads s' ! u) \<longrightarrow>
          (thread_agent_id (threads s' ! u), Some u) \<in> set (tasks s')"
      proof (intro allI impI)
        fix u assume u: "u < length (threads s')" "running (threads s' ! u)"
        then have ne: "u \<noteq> t" using j(3) tin thr' by auto
        have "running (threads s ! u)" using u(2) j(6) thr' by simp
        moreover have "u < length (threads s)" using u(1) thr' j(2) by simp
        ultimately have "(thread_agent_id (threads s ! u), Some u) \<in> set (tasks s)"
          using assms(1) by (simp add: registry_inv_def)
        then obtain b where b: "b \<in> set (wake_agent_threads s)"
          "entry_id b = thread_agent_id (threads s ! u)" "thread b = Some u"
          by (auto simp: tasks_def)
        then have "b \<noteq> ?a" using t ne by auto
        with b(1) have "b \<in> set (remove1 ?a (wake_agent_threads s))"
          by simp
        with b(2,3) have "(thread_agent_id (threads s ! u), Some u) \<in> set (tasks s')"
          unfolding tasks_def reg' by force
        then show "(thread_agent_id (threads s' ! u), Some u) \<in> set (tasks s')"
          using j(5) thr' by simp
      qed
      have b: "\<forall>i u. (i, Some u) \<in> set (tasks s') \<longrightarrow>
             u < length (threads s') \<and> thread_agent_id (threads s' ! u) = i"
        using assms(1) sub j(2,5) thr' unfolding registry_inv_def by auto
      have c: "distinct (map fst (filter (\<lambda>p. snd p \<noteq> None) (tasks s')))"
        using assms(1) unfolding registry_inv_def tasks_def reg'
        by (intro distinct_filter_remove1) simp
      show ?thesis
        unfolding registry_inv_def using a b c by blast
    qed
  qed
qed

lemma registry_inv_thread_exit:
  assumes "registry_inv s"
  shows "registry_inv (thread_exit t s)"
proof -
  let ?s' = "thread_exit t s"
  have t: "tasks ?s' = tasks s"
    by (simp add: thread_exit_def tasks_def)
  have len: "length (threads ?s') = length (threads s)"
    by (simp add: thread_exit_def)
  have nth: "thread_agent_id (threads ?s' ! u) = thread_agent_id (threads s ! u)
      \<and> (running (threads ?s' ! u) \<longrightarrow> running (threads s ! u))" for u
  proof (cases "t < length (threads s)")
    case True
    then show ?thesis
      by (cases "u = t") (simp_all add: thread_exit_def)
  next
    case False
    then have "(threads s)[t := x] = threads s" for x
      by (simp add: not_less list_update_beyond)
    then show ?thesis by (simp add: thread_exit_def)
  qed
  show ?thesis
    using assms unfolding registry_inv_def t len by (simp add: nth)
qed

lemma registry_inv_run_ops:
  "registry_inv s \<Longrightarrow> run_ops ops s = Some s' \<Longrightarrow> registry_inv s'"
proof (induction ops arbitrary: s)
  case Nil
  then show ?case by simp
next
  case (Cons x ops)
  from Cons.prems(2) obtain s1 where s1: "run_op x s = Some s1" "run_ops ops s1 = Some s'"
    by (auto split: option.splits)
  have "registry_inv s1"
  proof (cases x)
    case (Keep mid period)
    with s1(1) Cons.prems(1) show ?thesis
      using registry_inv_keep [of s mid period] by auto
  next
    case (Stop mid)
    with s1(1) obtain r where "StopKeepAgentWake mid s = Some (r, s1)"
      by auto
    with Cons.prems(1) show ?thesis by (rule registry_inv_stop)
  next
    case (ThreadExit t)
    with s1(1) Cons.prems(1) show ?thesis
      using registry_inv_thread_exit [of s t] by auto
  qed
  then show ?case using s1(2) by (rule Cons.IH)
qed

lemma length_le_one:
  assumes "distinct xs" and "\<And>x y. x \<in> set xs \<Longrightarrow> y \<in> set xs \<Longrightarrow> x = y"
  shows "length xs \<le> 1"
proof (cases xs)
  case Nil
  then show ?thesis by simp
next
  case (Cons x ys)
  show ?thesis
  proof (cases ys)
    case Nil
    with Cons show ?thesis by simp
  next
    case (Cons y zs)
    have "x = y" using assms(2) [of x y] \<open>xs = x # ys\<close> Cons by simp
    with assms(1) \<open>xs = x # ys\<close> Cons show ?thesis by simp
  qed
qed

lemma registry_inv_tasks_unique:
  assumes "registry_inv s"
      and "t1 < length (threads s)" "running (threads s ! t1)"
      and "t2 < length (threads s)" "running (threads s ! t2)"
      and "thread_agent_id (threads s ! t1) = thread_agent_id (threads s ! t2)"
  shows "t1 = t2"
proof -
  let ?F = "filter (\<lambda>p. snd p \<noteq> None) (tasks s)"
  let ?i = "thread_agent_id (threads s ! t1)"
  have a: "\<forall>t < length (threads s). running (threads s ! t) \<longrightarrow>
          (thread_agent_id (threads s ! t), Some t) \<in> set (tasks s)"
    using assms(1) by (simp add: registry_inv_def)
  have m1: "(?i, Some t1) \<in> set ?F"
    using a assms(2,3) by simp
  have m2: "(?i, Some t2) \<in> set ?F"
    using a assms(4,5,6) by simp
  have "distinct (map fst ?F)"
    using assms(1) by (simp add: registry_inv_def)
  then have inj: "inj_on fst (set ?F)"
    by (simp add: distinct_map)
  have "(?i, Some t1) = (?i, Some t2)"
    by (rule inj_onD [OF inj _ m1 m2]) simp
  then show ?thesis by simp
qed

lemma active_tasks_le_one:
  assumes "registry_inv s"
  shows "length (active_tasks s mid) \<le> 1"
proof (rule length_le_one)
  show "distinct (active_tasks s mid)"
    by (simp add: active_tasks_def)
next
  fix x y
  assume "x \<in> set (active_tasks s mid)" "y \<in> set (active_tasks s mid)"
  then have x: "x < length (threads s)" "running (threads s ! x)"
      "thread_agent_id (threads s ! x) = mid"
    and y: "y < length (threads s)" "running (threads s ! y)"
      "thread_agent_id (threads s ! y) = mid"
    by (simp_all add: active_tasks_def)
  show "x = y"
    by (rule registry_inv_tasks_unique [OF assms x(1,2) y(1,2)]) (simp add: x(3) y(3))
qed

lemma filter_le_one:
  "distinct (map f (filter Q xs)) \<Longrightarrow> (\<forall>x. R x \<longrightarrow> Q x \<and> f x = c) \<Longrightarrow>
   length (filter R xs) \<le> 1"
proof (induction xs)
  case Nil
  then show ?case by simp
next
  case (Cons x xs)
  show ?case
  proof (cases "R x")
    case False
    with Cons show ?thesis by (auto split: if_splits)
  next
    case True
    then have q: "Q x" "f x = c" using Cons.prems(2) by auto
    with Cons.prems(1) have "c \<notin> f ` set (filter Q xs)" by auto
    then have "filter R xs = []"
      using Cons.prems(2) by (auto simp: filter_empty_conv)
    with True show ?thesis by simp
  qed
qed

lemma active_entries_le_one:
  assumes "registry_inv s"
  shows "length (active_entries s mid) \<le> 1"
proof -
  have "distinct (map fst (filter (\<lambda>p. snd p \<noteq> None)
          (map (\<lambda>a. (entry_id a, thread a)) (wake_agent_threads s))))"
    using assms by (simp add: registry_inv_def tasks_def)
  then have "distinct (map entry_id (filter (\<lambda>a. thread a \<noteq> None) (wake_agent_threads s)))"
    by (simp add: filter_map comp_def)
  then show ?thesis
    unfolding active_entries_def
    by (rule filter_le_one [where c = mid]) (auto split: option.splits)
qed

text \<open>
  C3. After any sequence of \<^verbatim>\<open>KeepAgentAwake\<close> and \<^verbatim>\<open>StopKeepAgentWake\<close> calls
  on a fresh instance, every agent id has at most one active keep-awake thread and the
  registry holds at most one entry with an active thread for it. A start for an agent
  id that has an active task is rejected: the call raises \<^verbatim>\<open>KeyError\<close> (the
  appended dict has no \<^verbatim>\<open>'terminator'\<close>) and creates no thread.
\<close>

theorem at_most_one_active_task:
  assumes "run_ops ops new_agents = Some s"
  shows "length (active_tasks s machine_agent_id) \<le> 1
       \<and> length (active_entries s machine_agent_id) \<le> 1
       \<and> (active_tasks s machine_agent_id \<noteq> [] \<longrightarrow>
            fst (KeepAgentAwake machine_agent_id period s) = Some KeyError
            \<and> threads (snd (KeepAgentAwake machine_agent_id period s)) = threads s)"
proof -
  have inv: "registry_inv s"
    using registry_inv_new assms by (rule registry_inv_run_ops)
  have rej: "fst (KeepAgentAwake machine_agent_id period s) = Some KeyError
            \<and> threads (snd (KeepAgentAwake machine_agent_id period s)) = threads s"
    if "active_tasks s machine_agent_id \<noteq> []"
  proof -
    from that obtain t where t: "t < length (threads s)" "running (threads s ! t)"
      "thread_agent_id (threads s ! t) = machine_agent_id"
      by (auto simp: active_tasks_def filter_empty_conv)
    with inv have "(machine_agent_id, Some t) \<in> set (tasks s)"
      by (auto simp: registry_inv_def)
    then have "machine_agent_id \<in> set (map entry_id (wake_agent_threads s))"
      by (auto simp: tasks_def)
    from KeepAgentAwake_duplicate [OF this, of period] show ?thesis
      by auto
  qed
  show ?thesis
    using active_tasks_le_one [OF inv] active_entries_le_one [OF inv] rej by blast
qed

theorem at_most_one_active_task_witness:
  "run_ops [Keep (IdInt 1) 70, Keep (IdInt 1) 70] new_agents = Some after_second_start
   \<and> active_tasks after_second_start (IdInt 1) = [0]
   \<and> length (active_entries after_second_start (IdInt 1)) \<le> 1
   \<and> fst (KeepAgentAwake (IdInt 1) 70 after_second_start) = Some KeyError
   \<and> threads (snd (KeepAgentAwake (IdInt 1) 70 after_second_start)) = threads after_second_start"
proof -
  have a: "active_tasks after_second_start (IdInt 1) = [0]"
    by (simp add: active_tasks_def after_second_start_def)
  show ?thesis
    using at_most_one_active_task [OF run_two_starts, of "IdInt 1" 70] run_two_starts a
    by simp
qed

section \<open>Properties of WakeSpecificAgent\<close>

lemma tick_simps [simp]:
  "ticks (tick w) = ticks w + 1" "clock (tick w) = clock w" "wakes (tick w) = wakes w"
  "wake_status (tick w) = wake_status w" "polls (tick w) = polls w" "monitors (tick w) = monitors w"
  by (simp_all add: tick_def)

lemma wake_all_loop_no_ack:
  assumes "finish_time \<le> clock w (ticks w + k)"
      and "\<forall>j. (\<forall>i \<le> j. clock w (ticks w + i) < finish_time) \<longrightarrow> wake_status w (wakes w + j) \<noteq> 200"
  shows "\<exists>code w'. wake_all_loop finish_time c w = Some (False, code, w')
           \<and> monitors w' = monitors w \<and> clock w' = clock w \<and> polls w' = polls w
           \<and> wake_status w' = wake_status w"
  using assms
proof (induction k arbitrary: w c)
  case 0
  then have "\<not> now w < finish_time" by (simp add: now_def)
  then show ?case
    by (subst wake_all_loop.simps) simp
next
  case (Suc k)
  show ?case
  proof (cases "now w < finish_time")
    case False
    then show ?thesis
      by (subst wake_all_loop.simps) simp
  next
    case True
    let ?w1 = "(tick w)\<lparr>wakes := wakes w + 1\<rparr>"
    have code: "wake_status w (wakes w) \<noteq> 200"
      using Suc.prems(2) [rule_format, of 0] True by (simp add: now_def)
    have step: "wake_all_loop finish_time c w = wake_all_loop finish_time (wake_status w (wakes w)) ?w1"
      using True code by (subst wake_all_loop.simps) (simp add: WakeAgents_def)
    have d: "finish_time \<le> clock ?w1 (ticks ?w1 + k)"
      using Suc.prems(1) by simp
    have n: "\<forall>j. (\<forall>i \<le> j. clock ?w1 (ticks ?w1 + i) < finish_time) \<longrightarrow>
                wake_status ?w1 (wakes ?w1 + j) \<noteq> 200"
    proof (intro allI impI)
      fix j assume a: "\<forall>i \<le> j. clock ?w1 (ticks ?w1 + i) < finish_time"
      have "\<forall>i \<le> Suc j. clock w (ticks w + i) < finish_time"
      proof (intro allI impI)
        fix i assume "i \<le> Suc j"
        show "clock w (ticks w + i) < finish_time"
        proof (cases i)
          case 0
          with True show ?thesis by (simp add: now_def)
        next
          case (Suc i')
          with \<open>i \<le> Suc j\<close> a [rule_format, of i'] show ?thesis by simp
        qed
      qed
      with Suc.prems(2) have "wake_status w (wakes w + Suc j) \<noteq> 200" by blast
      then show "wake_status ?w1 (wakes ?w1 + j) \<noteq> 200" by simp
    qed
    from Suc.IH [OF d n, of "wake_status w (wakes w)"] step show ?thesis
      by auto
  qed
qed

lemma wake_all_loop_result:
  assumes "wake_all_loop finish_time c w = Some r"
  shows "wake_status (snd (snd r)) = wake_status w \<and> clock (snd (snd r)) = clock w
       \<and> polls (snd (snd r)) = polls w \<and> monitors (snd (snd r)) = monitors w
       \<and> wakes w \<le> wakes (snd (snd r))
       \<and> (fst r \<longrightarrow> wakes w < wakes (snd (snd r))
                      \<and> wake_status w (wakes (snd (snd r)) - 1) = 200)"
proof -
  let ?P = "\<lambda>(f::int) (c::int) w r.
       wake_status (snd (snd r)) = wake_status w \<and> clock (snd (snd r)) = clock w
       \<and> polls (snd (snd r)) = polls w \<and> monitors (snd (snd r)) = monitors w
       \<and> wakes w \<le> wakes (snd (snd r))
       \<and> (fst r \<longrightarrow> wakes w < wakes (snd (snd r))
                      \<and> wake_status w (wakes (snd (snd r)) - 1) = 200)"
  have "?P finish_time c w r"
  proof (rule wake_all_loop.raw_induct [where P = ?P, OF _ assms])
    fix loop :: "int \<Rightarrow> int \<Rightarrow> world \<Rightarrow> (bool \<times> int \<times> world) option"
    fix f c w r
    assume IH: "\<And>f c w r. loop f c w = Some r \<Longrightarrow> ?P f c w r"
      and body: "(if now w < f
                  then case WakeAgents (tick w) of
                         (code, w1) \<Rightarrow>
                           if code = 200 then Some (True, code, w1) else loop f code w1
                  else Some (False, c, tick w)) = Some r"
    show "?P f c w r"
    proof (cases "now w < f")
      case False
      with body have "r = (False, c, tick w)" by simp
      then show ?thesis by simp
    next
      case True
      let ?w1 = "(tick w)\<lparr>wakes := wakes w + 1\<rparr>"
      show ?thesis
      proof (cases "wake_status w (wakes w) = 200")
        case ack: True
        with True body have "r = (True, 200, ?w1)"
          by (simp add: WakeAgents_def)
        then show ?thesis using ack by simp
      next
        case False
        with True body have "loop f (wake_status w (wakes w)) ?w1 = Some r"
          by (simp add: WakeAgents_def)
        from IH [OF this] show ?thesis by simp
      qed
    qed
  qed
  then show ?thesis by simp
qed

text \<open>The heartbeat monitor is called only after some wake request was acknowledged.\<close>

lemma monitor_needs_ack:
  assumes "WakeSpecificAgent machine_agent_id timeoutMilliseconds keep_agent_awake
             wake_period rse_heartbeat_config w s = Some (r, w', s')"
      and "monitors w' \<noteq> monitors w"
  shows "\<exists>j. wake_status w (wakes w + j) = 200"
proof -
  let ?finish = "now w + timeoutMilliseconds"
  from assms(1) obtain wokeall code w1 where
    l: "wake_all_loop ?finish 0 (tick w) = Some (wokeall, code, w1)"
    by (auto simp: WakeSpecificAgent_def Let_def split: option.splits)
  from wake_all_loop_result [OF l] have fr: "monitors w1 = monitors w"
    "wokeall \<longrightarrow> wakes w < wakes w1 \<and> wake_status w (wakes w1 - 1) = 200"
    by simp_all
  have wokeall
  proof (rule ccontr)
    assume "\<not> wokeall"
    with assms(1) l have "w' = w1"
      by (simp add: WakeSpecificAgent_def Let_def)
    with fr(1) assms(2) show False by simp
  qed
  with fr(2) have "wakes w < wakes w1" "wake_status w (wakes w1 - 1) = 200" by simp_all
  then have "wake_status w (wakes w + (wakes w1 - 1 - wakes w)) = 200" by simp
  then show ?thesis by blast
qed

text \<open>
  C2. If the clock reaches the deadline of the broadcast phase and none of the wake
  requests made before it is answered with status 200, \<^verbatim>\<open>WakeSpecificAgent\<close>
  returns \<^verbatim>\<open>False\<close>, has made no call of \<^verbatim>\<open>rse.MonitorForHeartBeat\<close>, and has
  started no keep-awake task.
\<close>

theorem no_ack_no_monitor:
  assumes "\<exists>k. clock w (ticks w) + timeoutMilliseconds \<le> clock w (ticks w + 1 + k)"
      and "\<forall>j. (\<forall>i \<le> j. clock w (ticks w + 1 + i) < clock w (ticks w) + timeoutMilliseconds)
               \<longrightarrow> wake_status w (wakes w + j) \<noteq> 200"
  shows "\<exists>w' s'. WakeSpecificAgent machine_agent_id timeoutMilliseconds keep_agent_awake
                     wake_period rse_heartbeat_config w s = Some (Inr False, w', s')
           \<and> monitors w' = monitors w
           \<and> wake_agent_threads s' = wake_agent_threads s
           \<and> threads s' = threads s"
proof -
  let ?finish = "clock w (ticks w) + timeoutMilliseconds"
  from assms(1) obtain k where k: "?finish \<le> clock w (ticks w + 1 + k)"
    by blast
  have d: "?finish \<le> clock (tick w) (ticks (tick w) + k)"
    using k by simp
  have n: "\<forall>j. (\<forall>i \<le> j. clock (tick w) (ticks (tick w) + i) < ?finish)
               \<longrightarrow> wake_status (tick w) (wakes (tick w) + j) \<noteq> 200"
    using assms(2) by simp
  from wake_all_loop_no_ack [OF d n, of 0] obtain code w1 where
    l: "wake_all_loop ?finish 0 (tick w) = Some (False, code, w1)" "monitors w1 = monitors w"
    by auto
  show ?thesis
    using l by (simp add: WakeSpecificAgent_def now_def)
qed

theorem no_ack_no_monitor_witness:
  "clock silent_server (ticks silent_server) + 5000 \<le> clock silent_server (ticks silent_server + 1 + 4)
   \<and> (\<forall>j. wake_status silent_server j = 503)
   \<and> map_option (\<lambda>r. (fst r, monitors (fst (snd r)), wake_agent_threads (snd (snd r))))
        (WakeSpecificAgent (IdInt 42) 5000 True None JNull silent_server new_agents)
       = Some (Inr False, 0, [])"
proof -
  have d: "\<exists>k. clock silent_server (ticks silent_server) + 5000
              \<le> clock silent_server (ticks silent_server + 1 + k)"
    by (rule exI [of _ 4]) (simp add: silent_server_def)
  have n: "\<forall>j. (\<forall>i \<le> j. clock silent_server (ticks silent_server + 1 + i)
                      < clock silent_server (ticks silent_server) + 5000)
               \<longrightarrow> wake_status silent_server (wakes silent_server + j) \<noteq> 200"
    by (simp add: silent_server_def)
  have m: "monitors silent_server = 0" "wake_agent_threads new_agents = []"
    by (simp_all add: silent_server_def new_agents_def)
  from no_ack_no_monitor [OF d n, of "IdInt 42" True None JNull new_agents]
  have "map_option (\<lambda>r. (fst r, monitors (fst (snd r)), wake_agent_threads (snd (snd r))))
        (WakeSpecificAgent (IdInt 42) 5000 True None JNull silent_server new_agents)
       = Some (Inr False, 0, [])"
    using m by auto
  then show ?thesis
    by (simp add: silent_server_def)
qed

lemma wake_all_loop_ack_first:
  assumes "now w < finish_time" and "wake_status w (wakes w) = 200"
  shows "wake_all_loop finish_time c w = Some (True, 200, (tick w)\<lparr>wakes := wakes w + 1\<rparr>)"
  using assms by (subst wake_all_loop.simps) (simp add: WakeAgents_def)

lemma heartbeat_loop_found_first:
  assumes "now w < finish_time"
      and "returned (MonitorForHeartBeat mid (polls w (monitors w))) = Inr True"
  shows "heartbeat_loop mid finish_time w = Some (Inr True, (tick w)\<lparr>monitors := monitors w + 1\<rparr>)"
  using assms by (subst heartbeat_loop.simps) (simp add: monitor_call_def)



lemma sample_poll: "returned (MonitorForHeartBeat (IdInt 42) (JArr [heartbeat_event 42 3])) = Inr True"
  by (simp add: MonitorForHeartBeat_def monitor_try_def returned_def heartbeat_check_def
      heartbeat_event_def)

lemma phase1: "wake_all_loop (now responsive_server + 10000) 0 (tick responsive_server) =
    Some (True, 200, after_wake)"
proof -
  have "now (tick responsive_server) < now responsive_server + 10000"
    "wake_status (tick responsive_server) (wakes (tick responsive_server)) = 200"
    by (simp_all add: now_def responsive_server_def tick_def)
  from wake_all_loop_ack_first [OF this, of 0] show ?thesis
    by (simp add: responsive_server_def tick_def after_wake_def)
qed

lemma phase2: "heartbeat_loop (IdInt 42) (now after_wake + 10000) (tick after_wake) =
    Some (Inr True, after_heartbeat)"
proof -
  let ?w = "tick after_wake"
  have "now ?w < now after_wake + 10000"
    by (simp add: now_def responsive_server_def tick_def after_wake_def)
  moreover have "returned (MonitorForHeartBeat (IdInt 42) (polls ?w (monitors ?w))) = Inr True"
    using sample_poll by (simp add: responsive_server_def tick_def after_wake_def)
  ultimately have "heartbeat_loop (IdInt 42) (now after_wake + 10000) ?w =
      Some (Inr True, (tick ?w)\<lparr>monitors := monitors ?w + 1\<rparr>)"
    by (rule heartbeat_loop_found_first)
  then show ?thesis
    by (simp add: responsive_server_def tick_def after_wake_def after_heartbeat_def)
qed




section \<open>Properties of the keep-awake thread function\<close>

lemma check_notifier_set:
  "is_set n \<Longrightarrow> fst (check_notifier n) = False \<and> \<not> flag (snd (check_notifier n))
     \<and> checks (snd (check_notifier n)) = checks n + 1"
  by (simp add: check_notifier_def)

lemma check_notifier_clear:
  "\<not> is_set n \<Longrightarrow> fst (check_notifier n) = True \<and> flag (snd (check_notifier n)) = flag n
     \<and> checks (snd (check_notifier n)) = checks n + 1"
  by (simp add: check_notifier_def)

lemma check_notifier_cases:
  "check_notifier n = (c, n1) \<Longrightarrow> checks n1 = checks n + 1 \<and> (\<not> c \<longrightarrow> \<not> flag n1) \<and> (c = (\<not> is_set n))"
  by (auto simp: check_notifier_def split: if_splits)

lemma period_wait_result:
  assumes "period_wait finish_time c n w = Some r"
  shows "checks n \<le> checks (fst (snd r))
       \<and> (\<not> c \<longrightarrow> fst (snd r) = n \<and> \<not> fst r)
       \<and> (\<not> fst r \<and> c \<longrightarrow> \<not> flag (fst (snd r)))"
proof -
  let ?P = "\<lambda>(f::rat) c n (w::world) (r::bool \<times> notifier \<times> world).
       checks n \<le> checks (fst (snd r))
       \<and> (\<not> c \<longrightarrow> fst (snd r) = n \<and> \<not> fst r)
       \<and> (\<not> fst r \<and> c \<longrightarrow> \<not> flag (fst (snd r)))"
  have "?P finish_time c n w r"
  proof (rule period_wait.raw_induct [where P = ?P, OF _ assms])
    fix loop :: "rat \<Rightarrow> bool \<Rightarrow> notifier \<Rightarrow> world \<Rightarrow> (bool \<times> notifier \<times> world) option"
    fix f c n w r
    assume IH: "\<And>f c n w r. loop f c n w = Some r \<Longrightarrow> ?P f c n w r"
      and body: "(if of_int (now w) < f \<and> c
                  then case check_notifier n of (c1, n1) \<Rightarrow> loop f c1 n1 (tick w)
                  else Some (c, n, tick w)) = Some r"
    show "?P f c n w r"
    proof (cases "of_int (now w) < f \<and> c")
      case False
      with body have "r = (c, n, tick w)" by auto
      then show ?thesis by simp
    next
      case True
      obtain c1 n1 where cn: "check_notifier n = (c1, n1)"
        by (cases "check_notifier n")
      with True body have "loop f c1 n1 (tick w) = Some r" by simp
      from IH [OF this] have ih: "checks n1 \<le> checks (fst (snd r))"
        "\<not> c1 \<longrightarrow> fst (snd r) = n1 \<and> \<not> fst r"
        "\<not> fst r \<and> c1 \<longrightarrow> \<not> flag (fst (snd r))"
        by simp_all
      from check_notifier_cases [OF cn] have ck: "checks n1 = checks n + 1" "\<not> c1 \<longrightarrow> \<not> flag n1"
        by simp_all
      show ?thesis
        using True ih ck by (cases c1) auto
    qed
  qed
  then show ?thesis by simp
qed

lemma keep_wake_loop_result:
  assumes "keep_wake_loop agent rse_period n w eng = Some r"
  shows "fst r = None \<longrightarrow> \<not> flag (fst (snd r)) \<and> checks n < checks (fst (snd r))"
proof -
  let ?P = "\<lambda>(a::agent_id) (p::rat) n (w::world) (eng::agents)
              (r::py_error option \<times> notifier \<times> world \<times> agents).
       fst r = None \<longrightarrow> \<not> flag (fst (snd r)) \<and> checks n < checks (fst (snd r))"
  have "?P agent rse_period n w eng r"
  proof (rule keep_wake_loop.raw_induct [where P = ?P, OF _ assms], goal_cases)
    case (1 loop a p n w eng r)
    obtain c n1 where cn: "check_notifier n = (c, n1)"
      by (cases "check_notifier n")
    from check_notifier_cases [OF cn] have ck: "checks n1 = checks n + 1" "\<not> c \<longrightarrow> \<not> flag n1"
      by simp_all
    show ?case
    proof (cases c)
      case False
      with 1(2) cn have "r = (None, n1, w, eng)" by simp
      with ck False show ?thesis by simp
    next
      case True
      show ?thesis
      proof (cases "WakeSpecificAgent a 10000 False None JNull w eng")
        case None
        with 1(2) cn True show ?thesis by simp
      next
        case (Some res)
        obtain out w1 eng1 where res: "res = (out, w1, eng1)"
          by (cases res)
        show ?thesis
        proof (cases out)
          case (Inl e)
          with 1(2) cn True Some res have "r = (Some e, n1, w1, eng1)" by simp
          then show ?thesis by simp
        next
          case (Inr woke)
          show ?thesis
          proof (cases woke)
            case False
            with 1(2) cn True Some res Inr have
              "loop a p (n1\<lparr>thread_log := thread_log n1 @
                          [(DEBUG, ''{0:}: Failed to wake agent - {1:}'', [ArgId a])]\<rparr>) w1 eng1 = Some r"
              by simp
            from 1(1) [OF this] ck show ?thesis by auto
          next
            case woke: True
            show ?thesis
            proof (cases "period_wait (of_int (now w1) + p) True n1 (tick w1)")
              case None
              with 1(2) cn True Some res Inr woke show ?thesis by (simp add: Let_def)
            next
              case pw: (Some pres)
              obtain c2 n2 w2 where pres: "pres = (c2, n2, w2)"
                by (cases pres)
              from period_wait_result [OF pw] pres have p2: "checks n1 \<le> checks n2"
                "\<not> c2 \<longrightarrow> \<not> flag n2"
                by simp_all
              show ?thesis
              proof (cases c2)
                case False
                with 1(2) cn True Some res Inr woke pw pres have "r = (None, n2, w2, eng1)"
                  by (simp add: Let_def)
                with p2 ck False show ?thesis by simp
              next
                case c2: True
                with 1(2) cn True Some res Inr woke pw pres have "loop a p n2 w2 eng1 = Some r"
                  by (simp add: Let_def)
                from 1(1) [OF this] p2 ck show ?thesis by auto
              qed
            qed
          qed
        qed
      qed
    qed
  qed
  then show ?thesis by simp
qed

lemma keep_wake_loop_stop:
  "is_set n \<Longrightarrow> keep_wake_loop a p n w eng = Some (None, snd (check_notifier n), w, eng)"
  by (subst keep_wake_loop.simps) (simp add: check_notifier_def)

lemma period_wait_over:
  "\<not> of_int (now w) < f \<Longrightarrow> period_wait f c n w = Some (c, n, tick w)"
  by (subst period_wait.simps) simp

lemma keep_wake_loop_round:
  assumes "\<not> is_set n"
      and "WakeSpecificAgent a 10000 False None JNull w eng = Some (Inr True, w1, eng1)"
      and "period_wait (of_int (now w1) + p) True (snd (check_notifier n)) (tick w1) = Some (True, n2, w2)"
  shows "keep_wake_loop a p n w eng = keep_wake_loop a p n2 w2 eng1"
  using assms by (subst keep_wake_loop.simps) (simp add: check_notifier_def Let_def)

lemma wake_only:
  "WakeSpecificAgent (IdInt 42) 10000 False None JNull responsive_server new_agents =
     Some (Inr True, after_heartbeat, new_agents)"
  unfolding WakeSpecificAgent_def Let_def
  by (simp add: phase1 phase2)

lemma sample_thread_run:
  "keep_agent_wake_thread_fn (IdInt 42) 70 waiting_notifier responsive_server =
     Some (None, stopped_notifier, tick (tick after_heartbeat), new_agents)"
proof -
  let ?n0 = "log_startup (IdInt 42) waiting_notifier"
  let ?n1 = "snd (check_notifier ?n0)"
  have c0: "\<not> is_set ?n0"
    by (simp add: is_set_def waiting_notifier_def log_startup_def)
  have over: "\<not> of_int (now (tick after_heartbeat)) < of_int (now after_heartbeat) + (70::rat)"
    by (simp add: now_def after_heartbeat_def responsive_server_def tick_def)
  have pw: "period_wait (of_int (now after_heartbeat) + 70) True ?n1 (tick after_heartbeat) =
      Some (True, ?n1, tick (tick after_heartbeat))"
    using over by (rule period_wait_over)
  have r1: "keep_wake_loop (IdInt 42) 70 ?n0 responsive_server new_agents =
      keep_wake_loop (IdInt 42) 70 ?n1 (tick (tick after_heartbeat)) new_agents"
    using c0 wake_only pw by (rule keep_wake_loop_round)
  have c1: "is_set ?n1"
    by (simp add: is_set_def check_notifier_def waiting_notifier_def log_startup_def)
  have r2: "keep_wake_loop (IdInt 42) 70 ?n1 (tick (tick after_heartbeat)) new_agents =
      Some (None, snd (check_notifier ?n1), tick (tick after_heartbeat), new_agents)"
    using c1 by (rule keep_wake_loop_stop)
  have fin: "(snd (check_notifier ?n1))\<lparr>thread_log := thread_log (snd (check_notifier ?n1)) @
                [(DEBUG, ''{0:}: Terminating'', [])]\<rparr> = stopped_notifier"
    by (simp add: check_notifier_def is_set_def waiting_notifier_def stopped_notifier_def
        log_startup_def)
  show ?thesis
    by (simp add: keep_agent_wake_thread_fn_def r1 r2 fin)
qed

text \<open>
  C9. A checkpoint that finds the event set clears it and tells the loop to stop; one
  that finds it clear tells the loop to go on. Hence, whenever the thread function
  returns (having left its loop at a checkpoint), it has passed at least one
  checkpoint and the event's flag is cleared.
\<close>

theorem notifier_cleared_on_termination:
  assumes "keep_agent_wake_thread_fn agent rse_period n w = Some (None, n', w', eng)"
  shows "\<not> flag n' \<and> checks n < checks n'
       \<and> (\<forall>m. is_set m \<longrightarrow> fst (check_notifier m) = False \<and> \<not> flag (snd (check_notifier m)))
       \<and> (\<forall>m. \<not> is_set m \<longrightarrow> fst (check_notifier m) = True)"
proof -
  from assms obtain n1 where
    l: "keep_wake_loop agent rse_period (log_startup agent n) w new_agents =
          Some (None, n1, w', eng)"
    and n': "n' = n1\<lparr>thread_log := thread_log n1 @ [(DEBUG, ''{0:}: Terminating'', [])]\<rparr>"
    by (auto simp: keep_agent_wake_thread_fn_def split: option.splits prod.splits)
  from keep_wake_loop_result [OF l] have "\<not> flag n1" "checks n < checks n1"
    by (simp_all add: log_startup_def)
  with n' show ?thesis
    using check_notifier_set check_notifier_clear by simp
qed

theorem notifier_cleared_on_termination_witness:
  "keep_agent_wake_thread_fn (IdInt 42) 70 waiting_notifier responsive_server =
     Some (None, stopped_notifier, tick (tick after_heartbeat), new_agents)
   \<and> \<not> flag stopped_notifier
   \<and> checks waiting_notifier < checks stopped_notifier"
  using notifier_cleared_on_termination [OF sample_thread_run] sample_thread_run
  by simp

end
